theory Spec2Isabelle
  imports Main
begin

section \<open>StaticPrefetcher (prefetch-static.js): the admission queue\<close>

text \<open>
  The class keeps a set of prefetched URLs, a cache map, a pending list and a counter of
  running prefetches. \<open>prefetch\<close> is an async method: it runs synchronously up to
  \<open>await fetch(...)\<close>, is suspended there, and its continuation runs when the fetch
  settles. The model splits it at that point: \<open>prefetch\<close> is the part before the
  await, \<open>prefetch_resume\<close> the part after it. The suspended calls are the list
  \<open>inflight\<close>; the calls made to \<open>fetch\<close> are logged in \<open>fetchLog\<close>.
\<close>

datatype priority = High | Low

record document =
  doc_main :: "string option"
  doc_title :: string

record entry =
  html :: string
  doc :: document
  timestamp :: nat

text \<open>How a fetch settles: the promise of \<open>fetch\<close> (or of reading the body)
  rejects, or the response arrives with its \<open>ok\<close> flag and its body text.\<close>

datatype fetch_result = NetworkError | HttpResponse bool string

text \<open>The exceptions the modelled code can throw.\<close>

datatype js_error = ReferenceError string | TypeError string | SyntaxError string

record prefetcher =
  maxConcurrent :: int
  prefetched :: "string set"
  cache :: "string \<rightharpoonup> entry"
  prefetchQueue :: "string list"
  activePrefetches :: int
  inflight :: "string list"
  fetchLog :: "(string \<times> priority) list"

definition new_prefetcher :: "int \<Rightarrow> prefetcher" where
  "new_prefetcher k =
     \<lparr>maxConcurrent = k, prefetched = {}, cache = Map.empty, prefetchQueue = [],
      activePrefetches = 0, inflight = [], fetchLog = []\<rparr>"

text \<open>\<open>prefetch(url, priority)\<close>, lines 141-163, up to the await.\<close>

definition prefetch :: "prefetcher \<Rightarrow> string \<Rightarrow> priority \<Rightarrow> prefetcher" where
  "prefetch s url pr =
     (if url \<in> prefetched s then s
      else if cache s url \<noteq> None then s
      else if activePrefetches s \<ge> maxConcurrent s then
        (if url \<in> set (prefetchQueue s) then s
         else s\<lparr>prefetchQueue := prefetchQueue s @ [url]\<rparr>)
      else s\<lparr>activePrefetches := activePrefetches s + 1,
             prefetched := insert url (prefetched s),
             inflight := inflight s @ [url],
             fetchLog := fetchLog s @ [(url, pr)]\<rparr>)"

text \<open>\<open>processQueue()\<close>, lines 191-197; the call \<open>this.prefetch(url)\<close> takes the
  default priority \<open>'high'\<close>.\<close>

definition processQueue :: "prefetcher \<Rightarrow> prefetcher" where
  "processQueue s =
     (case prefetchQueue s of
        [] \<Rightarrow> s
      | url # rest \<Rightarrow>
          if activePrefetches s \<ge> maxConcurrent s then s
          else prefetch (s\<lparr>prefetchQueue := rest\<rparr>) url High)"

text \<open>The continuation of \<open>prefetch\<close> after the await, lines 165-188: a response
  that is \<open>ok\<close> is parsed and stored with \<open>cache.set\<close>; a rejected fetch or a
  response that is not \<open>ok\<close> goes to the \<open>catch\<close> block; the \<open>finally\<close> block
  runs in both cases. \<open>d\<close> is the document \<open>DOMParser\<close> returns and \<open>t\<close> the
  value of \<open>Date.now()\<close>. \<open>settle\<close> is the continuation up to the decrement in the
  \<open>finally\<close> block, \<open>prefetch_resume\<close> adds the call of \<open>processQueue\<close> that
  ends it.\<close>

definition settle ::
  "prefetcher \<Rightarrow> string \<Rightarrow> fetch_result \<Rightarrow> document \<Rightarrow> nat \<Rightarrow> prefetcher" where
  "settle s url res d t =
     (let s0 = s\<lparr>inflight := remove1 url (inflight s)\<rparr>;
          s1 = (case res of
                  HttpResponse True body \<Rightarrow>
                    s0\<lparr>cache := (cache s0)(url \<mapsto> \<lparr>html = body, doc = d, timestamp = t\<rparr>)\<rparr>
                | _ \<Rightarrow> s0\<lparr>prefetched := prefetched s0 - {url}\<rparr>)
      in s1\<lparr>activePrefetches := activePrefetches s1 - 1\<rparr>)"

definition prefetch_resume ::
  "prefetcher \<Rightarrow> string \<Rightarrow> fetch_result \<Rightarrow> document \<Rightarrow> nat \<Rightarrow> prefetcher" where
  "prefetch_resume s url res d t = processQueue (settle s url res d t)"

text \<open>\<open>clearCache()\<close>, lines 250-254.\<close>

definition clearCache :: "prefetcher \<Rightarrow> prefetcher" where
  "clearCache s = s\<lparr>cache := Map.empty, prefetched := {}\<rparr>"

text \<open>What can happen to a prefetcher: a call of \<open>prefetch\<close>, the settling of the
  fetch of a suspended call, a call of \<open>clearCache\<close>. A fetch can only settle for a
  call that is suspended.\<close>

datatype event =
    Request string priority
  | Complete string fetch_result document nat
  | ClearCache

fun step :: "prefetcher \<Rightarrow> event \<Rightarrow> prefetcher option" where
  "step s (Request url pr) = Some (prefetch s url pr)"
| "step s (Complete url res d t) =
     (if url \<in> set (inflight s) then Some (prefetch_resume s url res d t) else None)"
| "step s ClearCache = Some (clearCache s)"

fun run :: "prefetcher \<Rightarrow> event list \<Rightarrow> prefetcher option" where
  "run s [] = Some s"
| "run s (ev # evs) = (case step s ev of None \<Rightarrow> None | Some s' \<Rightarrow> run s' evs)"

fun is_clear :: "event \<Rightarrow> bool" where
  "is_clear ClearCache = True"
| "is_clear _ = False"

text \<open>How often a URL was given to \<open>fetch\<close>, and whether an event is a fetch of
  the URL that failed.\<close>

definition fetches :: "string \<Rightarrow> prefetcher \<Rightarrow> nat" where
  "fetches url s = count_list (map fst (fetchLog s)) url"

text \<open>The fetches of a URL that are not accounted for by its mark in
  \<open>prefetched\<close>.\<close>

definition unmarked_fetches :: "string \<Rightarrow> prefetcher \<Rightarrow> int" where
  "unmarked_fetches url s = int (fetches url s) - (if url \<in> prefetched s then 1 else 0)"

fun failed :: "string \<Rightarrow> event \<Rightarrow> bool" where
  "failed url (Complete u (HttpResponse True body) d t) = False"
| "failed url (Complete u res d t) = (u = url)"
| "failed url ev = False"

text \<open>The slot invariant: the counter is the number of suspended calls and does not
  exceed the limit.\<close>

definition slots_ok :: "prefetcher \<Rightarrow> bool" where
  "slots_ok s \<longleftrightarrow>
     activePrefetches s = int (length (inflight s)) \<and> activePrefetches s \<le> maxConcurrent s"

text \<open>Bookkeeping facts that hold as long as \<open>clearCache\<close> is not called: a
  suspended call is for a URL marked prefetched and not yet cached, every cached URL is
  marked prefetched, and a pending URL is neither; no URL is suspended or pending twice.\<close>

definition tidy :: "prefetcher \<Rightarrow> bool" where
  "tidy s \<longleftrightarrow>
     distinct (inflight s) \<and> set (inflight s) \<subseteq> prefetched s \<and>
     set (inflight s) \<inter> dom (cache s) = {} \<and> dom (cache s) \<subseteq> prefetched s \<and>
     distinct (prefetchQueue s) \<and> set (prefetchQueue s) \<inter> prefetched s = {}"

definition queue_ok :: "prefetcher \<Rightarrow> bool" where
  "queue_ok s \<longleftrightarrow>
     slots_ok s \<and> tidy s \<and> (prefetchQueue s \<noteq> [] \<longrightarrow> maxConcurrent s \<le> activePrefetches s)"

section \<open>ArticlePrefetcher (prefetch.js): the admission queue\<close>

text \<open>
  \<open>prefetchArticle\<close> of prefetch.js, lines 184-216. Where the browser supports
  \<open>link rel=prefetch\<close> the method never awaits: it appends a link element to the head,
  runs its \<open>finally\<close> block and so calls \<open>processQueue\<close>, which calls
  \<open>prefetchArticle\<close> again. Otherwise it is suspended at
  \<open>await this.prefetchWithFetch(articleUrl)\<close>. \<open>supportsLinkPrefetch\<close> is what
  \<open>relList.supports('prefetch')\<close> returns, \<open>headLinks\<close> the links appended.
\<close>

record article_prefetcher =
  maxConcurrentPrefetch :: int
  prefetchedUrls :: "string set"
  ap_prefetchQueue :: "string list"
  ap_activePrefetches :: int
  supportsLinkPrefetch :: bool
  headLinks :: "string list"
  ap_inflight :: "string list"
  ap_fetchLog :: "string list"

definition articleUrl :: "string \<Rightarrow> string" where
  "articleUrl slug = ''./articles/'' @ slug @ ''/index.html''"

definition new_article_prefetcher :: "int \<Rightarrow> bool \<Rightarrow> article_prefetcher" where
  "new_article_prefetcher k links =
     \<lparr>maxConcurrentPrefetch = k, prefetchedUrls = {}, ap_prefetchQueue = [],
      ap_activePrefetches = 0, supportsLinkPrefetch = links, headLinks = [],
      ap_inflight = [], ap_fetchLog = []\<rparr>"

function prefetchArticle :: "article_prefetcher \<Rightarrow> string \<Rightarrow> article_prefetcher"
  and ap_processQueue :: "article_prefetcher \<Rightarrow> article_prefetcher" where
  "prefetchArticle s slug =
     (if slug \<in> prefetchedUrls s then s
      else if ap_activePrefetches s \<ge> maxConcurrentPrefetch s then
        s\<lparr>ap_prefetchQueue := ap_prefetchQueue s @ [slug]\<rparr>
      else if supportsLinkPrefetch s then
        ap_processQueue
          (s\<lparr>prefetchedUrls := insert slug (prefetchedUrls s),
             headLinks := headLinks s @ [articleUrl slug],
             ap_activePrefetches := ap_activePrefetches s + 1 - 1\<rparr>)
      else s\<lparr>ap_activePrefetches := ap_activePrefetches s + 1,
             prefetchedUrls := insert slug (prefetchedUrls s),
             ap_inflight := ap_inflight s @ [slug],
             ap_fetchLog := ap_fetchLog s @ [articleUrl slug]\<rparr>)"
| "ap_processQueue s =
     (case ap_prefetchQueue s of
        [] \<Rightarrow> s
      | slug # rest \<Rightarrow>
          if ap_activePrefetches s \<ge> maxConcurrentPrefetch s then s
          else prefetchArticle (s\<lparr>ap_prefetchQueue := rest\<rparr>) slug)"
  by pat_completeness auto
termination
  by (relation "measure (\<lambda>x. case x of
        Inl (s, slug) \<Rightarrow> 2 * length (ap_prefetchQueue s) + 1
      | Inr s \<Rightarrow> 2 * length (ap_prefetchQueue s))") auto

text \<open>The continuation after \<open>await this.prefetchWithFetch(articleUrl)\<close>:
  \<open>prefetchWithFetch\<close> throws when the fetch rejects or the response is not \<open>ok\<close>.\<close>

definition prefetchArticle_resume ::
  "article_prefetcher \<Rightarrow> string \<Rightarrow> fetch_result \<Rightarrow> article_prefetcher" where
  "prefetchArticle_resume s slug res =
     (let s0 = s\<lparr>ap_inflight := remove1 slug (ap_inflight s)\<rparr>;
          s1 = (case res of
                  HttpResponse True body \<Rightarrow> s0
                | _ \<Rightarrow> s0\<lparr>prefetchedUrls := prefetchedUrls s0 - {slug}\<rparr>)
      in ap_processQueue (s1\<lparr>ap_activePrefetches := ap_activePrefetches s1 - 1\<rparr>))"

section \<open>ArticlePrefetcher, the draft that renders markdown: prefetch and cache\<close>

text \<open>
  The draft is the file src/unnamed/part_003; it prefetches \<open>article.md\<close> through
  \<open>MarkdownRenderer.renderFile\<close> and keeps the rendered markup in \<open>htmlCache\<close>.
  \<open>MarkdownRenderer.renderFile\<close> (markdown-renderer.js, lines 92-103) wraps the fetch,
  the status check and the rendering in one \<open>try\<close> whose \<open>catch\<close> returns a fixed
  error paragraph: its promise always resolves. \<open>render\<close> is the markdown renderer, a
  pure function of the text.
\<close>

definition error_markup :: string where
  "error_markup = ''<p class=\"text-red-500\">Error loading article content.</p>''"

definition renderFile :: "(string \<Rightarrow> string) \<Rightarrow> fetch_result \<Rightarrow> string" where
  "renderFile render res =
     (case res of HttpResponse True markdown \<Rightarrow> render markdown | _ \<Rightarrow> error_markup)"

record md_prefetcher =
  md_maxConcurrentPrefetch :: int
  prefetchedSlugs :: "string set"
  htmlCache :: "string \<rightharpoonup> string"
  md_prefetchQueue :: "string list"
  md_activePrefetches :: int
  renderer_ready :: bool
  md_inflight :: "string list"
  md_fetchLog :: "string list"

definition new_md_prefetcher :: "int \<Rightarrow> md_prefetcher" where
  "new_md_prefetcher k =
     \<lparr>md_maxConcurrentPrefetch = k, prefetchedSlugs = {}, htmlCache = Map.empty,
      md_prefetchQueue = [], md_activePrefetches = 0, renderer_ready = True,
      md_inflight = [], md_fetchLog = []\<rparr>"

definition articleMdUrl :: "string \<Rightarrow> string" where
  "articleMdUrl slug = ''./articles/'' @ slug @ ''/article.md''"

text \<open>\<open>prefetchArticle\<close> of the markdown draft, lines 137-155, up to the await.\<close>

definition md_prefetchArticle :: "md_prefetcher \<Rightarrow> string \<Rightarrow> md_prefetcher" where
  "md_prefetchArticle s slug =
     (if slug \<in> prefetchedSlugs s then s
      else if md_activePrefetches s \<ge> md_maxConcurrentPrefetch s then
        s\<lparr>md_prefetchQueue := md_prefetchQueue s @ [slug]\<rparr>
      else if \<not> renderer_ready s then s
      else s\<lparr>md_activePrefetches := md_activePrefetches s + 1,
             prefetchedSlugs := insert slug (prefetchedSlugs s),
             md_inflight := md_inflight s @ [slug],
             md_fetchLog := md_fetchLog s @ [articleMdUrl slug]\<rparr>)"

definition md_processQueue :: "md_prefetcher \<Rightarrow> md_prefetcher" where
  "md_processQueue s =
     (case md_prefetchQueue s of
        [] \<Rightarrow> s
      | slug # rest \<Rightarrow>
          if md_activePrefetches s \<ge> md_maxConcurrentPrefetch s then s
          else md_prefetchArticle (s\<lparr>md_prefetchQueue := rest\<rparr>) slug)"

text \<open>The continuation, lines 155-165. \<open>settled\<close> is how the awaited promise of
  \<open>renderFile\<close> settles: \<open>Some html\<close> when it resolves, \<open>None\<close> when it rejects
  (the \<open>catch\<close> block).\<close>

definition md_prefetchArticle_resume ::
  "md_prefetcher \<Rightarrow> string \<Rightarrow> string option \<Rightarrow> md_prefetcher" where
  "md_prefetchArticle_resume s slug settled =
     (let s0 = s\<lparr>md_inflight := remove1 slug (md_inflight s)\<rparr>;
          s1 = (case settled of
                  Some h \<Rightarrow> s0\<lparr>htmlCache := (htmlCache s0)(slug \<mapsto> h)\<rparr>
                | None \<Rightarrow> s0\<lparr>prefetchedSlugs := prefetchedSlugs s0 - {slug}\<rparr>)
      in md_processQueue (s1\<lparr>md_activePrefetches := md_activePrefetches s1 - 1\<rparr>))"

text \<open>A prefetch whose fetch settles with \<open>res\<close>: the awaited promise is the one
  \<open>renderFile\<close> returns.\<close>

definition md_prefetch_settles ::
  "(string \<Rightarrow> string) \<Rightarrow> md_prefetcher \<Rightarrow> string \<Rightarrow> fetch_result \<Rightarrow> md_prefetcher" where
  "md_prefetch_settles render s slug res =
     md_prefetchArticle_resume s slug (Some (renderFile render res))"

section \<open>Hover timers\<close>

text \<open>
  Both classes keep \<open>hoverTimers\<close>, a map from the identifier to the handle that
  \<open>setTimeout\<close> returned. The browser side is the table \<open>timers\<close> of the timeouts
  that are still to run, each with the time it is due and the identifier its callback
  closes over, the next handle, and the clock. The callback calls \<open>prefetch\<close> (or
  \<open>prefetchArticle\<close>) and deletes the entry of \<open>hoverTimers\<close>; the calls are logged
  in \<open>prefetchCalls\<close>. Changes of the card's style are left out, but not the calls
  that find the card.
\<close>

record timer =
  due :: nat
  target :: string

record hover =
  delay :: nat
  hoverTimers :: "string \<rightharpoonup> nat"
  timers :: "nat \<rightharpoonup> timer"
  nextTimer :: nat
  now :: nat
  prefetchCalls :: "string list"

definition new_hover :: "nat \<Rightarrow> hover" where
  "new_hover d =
     \<lparr>delay = d, hoverTimers = Map.empty, timers = Map.empty, nextTimer = 1, now = 0,
      prefetchCalls = []\<rparr>"

definition setTimeout :: "hover \<Rightarrow> string \<Rightarrow> hover \<times> nat" where
  "setTimeout h url =
     (h\<lparr>timers := (timers h)(nextTimer h \<mapsto> \<lparr>due = now h + delay h, target = url\<rparr>),
        nextTimer := nextTimer h + 1\<rparr>,
      nextTimer h)"

definition clearTimeout :: "hover \<Rightarrow> nat \<Rightarrow> hover" where
  "clearTimeout h t = h\<lparr>timers := (timers h)(t := None)\<rparr>"

text \<open>\<open>StaticPrefetcher.scheduleHoverPrefetch\<close>, prefetch-static.js lines 82-97.\<close>

definition scheduleHoverPrefetch :: "hover \<Rightarrow> string \<Rightarrow> hover" where
  "scheduleHoverPrefetch h url =
     (if hoverTimers h url \<noteq> None then h
      else (case setTimeout h url of
              (h1, t) \<Rightarrow> h1\<lparr>hoverTimers := (hoverTimers h1)(url \<mapsto> t)\<rparr>))"

text \<open>\<open>ArticlePrefetcher.handleMouseEnter\<close>, prefetch.js lines 147-163.\<close>

definition handleMouseEnter :: "hover \<Rightarrow> string \<Rightarrow> hover" where
  "handleMouseEnter h slug =
     (let h0 = (case hoverTimers h slug of Some old \<Rightarrow> clearTimeout h old | None \<Rightarrow> h)
      in (case setTimeout h0 slug of
            (h1, t) \<Rightarrow> h1\<lparr>hoverTimers := (hoverTimers h1)(slug \<mapsto> t)\<rparr>))"

text \<open>
  \<open>ArticlePrefetcher.handleMouseLeave\<close>, prefetch.js lines 168-179. Its first
  statement is \<open>document.querySelector\<close> with the slug spliced into the selector
  \<open>article[data-slug="..."]\<close>; the timer is cleared after it. \<open>q\<close> is what that call
  does: it throws a \<open>SyntaxError\<close> when the text is not a valid selector (as for the
  slug \<open>a"b\<close>, whose quote ends the string early), or returns \<open>null\<close>, or returns
  the card. When it throws, the handler ends there.
\<close>

datatype query_result = SelectorError | NoCard | CardFound

definition handleMouseLeave :: "hover \<Rightarrow> string \<Rightarrow> query_result \<Rightarrow> js_error + hover" where
  "handleMouseLeave h slug q =
     (case q of
        SelectorError \<Rightarrow>
          Inl (SyntaxError (''article[data-slug=\"'' @ slug @ ''\"] is not a valid selector''))
      | _ \<Rightarrow>
          Inr (case hoverTimers h slug of
                 Some t \<Rightarrow> (clearTimeout h t)\<lparr>hoverTimers := (hoverTimers h)(slug := None)\<rparr>
               | None \<Rightarrow> h))"

text \<open>The \<open>mouseleave\<close> listener of \<open>StaticPrefetcher.setupHoverPrefetch\<close>,
  prefetch-static.js lines 69-79, for an article whose URL is \<open>url\<close>; its only
  selector is the constant \<open>article[onclick]\<close>.\<close>

definition mouseleave_listener :: "hover \<Rightarrow> string \<Rightarrow> hover" where
  "mouseleave_listener h url =
     (if hoverTimers h url \<noteq> None
      then (clearTimeout h (the (hoverTimers h url)))\<lparr>hoverTimers := (hoverTimers h)(url := None)\<rparr>
      else h)"

text \<open>The callback given to \<open>setTimeout\<close> in both classes.\<close>

definition timer_callback :: "hover \<Rightarrow> string \<Rightarrow> hover" where
  "timer_callback h url =
     h\<lparr>prefetchCalls := prefetchCalls h @ [url], hoverTimers := (hoverTimers h)(url := None)\<rparr>"

datatype impl = Static | Article

fun mouseenter :: "impl \<Rightarrow> hover \<Rightarrow> string \<Rightarrow> hover" where
  "mouseenter Static h url = scheduleHoverPrefetch h url"
| "mouseenter Article h url = handleMouseEnter h url"

text \<open>The state after the \<open>mouseleave\<close> event: a handler that throws leaves the
  state as it was.\<close>

fun mouseleave :: "impl \<Rightarrow> hover \<Rightarrow> string \<Rightarrow> query_result \<Rightarrow> hover" where
  "mouseleave Static h url q = mouseleave_listener h url"
| "mouseleave Article h url q = (case handleMouseLeave h url q of Inl err \<Rightarrow> h | Inr h' \<Rightarrow> h')"

text \<open>What can happen: the pointer enters or leaves the element of an identifier (the
  leave with what \<open>document.querySelector\<close> does in
  \<open>ArticlePrefetcher.handleMouseLeave\<close>), a timeout that is due runs (the browser
  takes it from the table and calls the callback), time passes. A timeout runs no
  earlier than it is due.\<close>

datatype hover_event = Enter string | Leave string query_result | Fire nat | Advance nat

fun hover_step :: "impl \<Rightarrow> hover \<Rightarrow> hover_event \<Rightarrow> hover option" where
  "hover_step i h (Enter url) = Some (mouseenter i h url)"
| "hover_step i h (Leave url q) = Some (mouseleave i h url q)"
| "hover_step i h (Fire t) =
     (case timers h t of
        None \<Rightarrow> None
      | Some tm \<Rightarrow>
          if due tm \<le> now h
          then Some (timer_callback (h\<lparr>timers := (timers h)(t := None)\<rparr>) (target tm))
          else None)"
| "hover_step i h (Advance n) = Some (h\<lparr>now := now h + n\<rparr>)"

fun hover_run :: "impl \<Rightarrow> hover \<Rightarrow> hover_event list \<Rightarrow> hover option" where
  "hover_run i h [] = Some h"
| "hover_run i h (ev # evs) =
     (case hover_step i h ev of None \<Rightarrow> None | Some h' \<Rightarrow> hover_run i h' evs)"

text \<open>The time that passes during a list of events.\<close>

fun elapsed :: "hover_event list \<Rightarrow> nat" where
  "elapsed [] = 0"
| "elapsed (Advance n # evs) = n + elapsed evs"
| "elapsed (ev # evs) = elapsed evs"

text \<open>Every timeout still to run is the one registered for its identifier, and the
  registered handles are handles that \<open>setTimeout\<close> has given out.\<close>

definition hover_ok :: "hover \<Rightarrow> bool" where
  "hover_ok h \<longleftrightarrow>
     (\<forall>t tm. timers h t = Some tm \<longrightarrow> hoverTimers h (target tm) = Some t) \<and>
     (\<forall>u t. hoverTimers h u = Some t \<longrightarrow> t < nextTimer h)"

text \<open>No timeout still to run is for \<open>url\<close>.\<close>

definition no_timer_for :: "string \<Rightarrow> hover \<Rightarrow> bool" where
  "no_timer_for url h \<longleftrightarrow> (\<forall>t tm. timers h t = Some tm \<longrightarrow> target tm \<noteq> url)"

text \<open>Every timeout still to run for \<open>url\<close> is due at \<open>T\<close> or later, and so is one
  created from now on.\<close>

definition due_from :: "nat \<Rightarrow> string \<Rightarrow> hover \<Rightarrow> bool" where
  "due_from T url h \<longleftrightarrow>
     (\<forall>t tm. timers h t = Some tm \<longrightarrow> target tm = url \<longrightarrow> T \<le> due tm) \<and>
     T \<le> now h + delay h"

section \<open>Navigation on click\<close>

text \<open>
  What a click handler does, in order: the calls it makes and the points where it is
  suspended at an \<open>await\<close>.
\<close>

datatype effect =
    PreventDefault
  | StopPropagation
  | Fetch string
  | Await
  | SetMain string
  | SetTitle string
  | PushState string
  | ScrollToTop
  | SetLocation string
  | RenderArticlePage string
  | RenderError

fun is_fetch :: "effect \<Rightarrow> bool" where
  "is_fetch (Fetch u) = True"
| "is_fetch _ = False"











section \<open>The connection gate\<close>

text \<open>\<open>checkConnection\<close>, the same in prefetch-static.js (lines 23-29), prefetch.js
  (lines 27-38) and the markdown draft (lines 26-32). The argument is
  \<open>navigator.connection\<close>, \<open>None\<close> where the browser has none.\<close>

record connection =
  saveData :: bool
  effectiveType :: string

definition checkConnection :: "connection option \<Rightarrow> bool" where
  "checkConnection conn =
     (case conn of
        None \<Rightarrow> True
      | Some c \<Rightarrow>
          if saveData c then False
          else if effectiveType c = ''slow-2g'' \<or> effectiveType c = ''2g'' then False
          else True)"

section \<open>The constructor of StaticPrefetcher\<close>

text \<open>
  Lines 4-21 of prefetch-static.js. The parameter has the default \<open>{}\<close>, which
  JavaScript takes when the argument is \<open>undefined\<close> and not when it is \<open>null\<close>.
  The object literal assigned to \<open>this.options\<close> evaluates its properties in order:
  three reads of a property of \<open>options\<close> (a \<open>TypeError\<close> on \<open>null\<close>), then
  \<open>options.instantNavigation !== tre\<close>, where \<open>tre\<close> is looked up in the global
  scope (a \<open>ReferenceError\<close> when nothing binds it), then the spread of
  \<open>options\<close>, whose own properties override the ones before. The fields are assigned
  and \<open>init\<close> runs after that. An options object is modelled with the four
  properties the class reads, each present or absent.
\<close>

datatype jsval = JUndefined | JNull | JBool bool | JNum int | JStr string

record options_object =
  arg_hoverDelay :: "int option"
  arg_maxConcurrent :: "int option"
  arg_aggressiveMode :: "bool option"
  arg_instantNavigation :: "bool option"

datatype argument = ArgUndefined | ArgNull | ArgObject options_object

record static_options =
  hoverDelay :: int
  opt_maxConcurrent :: int
  aggressiveMode :: bool
  instantNavigation :: bool

record static_prefetcher =
  inst_options :: static_options
  inst_queue :: prefetcher
  inst_hover :: hover
  shouldPrefetch :: bool
  listeners :: "string list"
  scheduled :: "(nat \<times> string \<times> priority) list"
  observed :: "string option list"

text \<open>\<open>v || d\<close> for a number and for a boolean property that may be absent.\<close>

definition or_num :: "int option \<Rightarrow> int \<Rightarrow> int" where
  "or_num v d = (case v of None \<Rightarrow> d | Some n \<Rightarrow> if n = 0 then d else n)"

definition or_bool :: "bool option \<Rightarrow> bool \<Rightarrow> bool" where
  "or_bool v d = (case v of None \<Rightarrow> d | Some b \<Rightarrow> if b then b else d)"

text \<open>\<open>v !== w\<close> for a boolean property that may be absent and any value.\<close>

definition strict_neq :: "bool option \<Rightarrow> jsval \<Rightarrow> bool" where
  "strict_neq v w = (case v of None \<Rightarrow> w \<noteq> JUndefined | Some b \<Rightarrow> w \<noteq> JBool b)"

text \<open>A property of the literal, overridden by the spread when \<open>options\<close> has it.\<close>

definition spread :: "'a option \<Rightarrow> 'a \<Rightarrow> 'a" where
  "spread v computed = (case v of None \<Rightarrow> computed | Some x \<Rightarrow> x)"

definition empty_options :: options_object where
  "empty_options =
     \<lparr>arg_hoverDelay = None, arg_maxConcurrent = None, arg_aggressiveMode = None,
      arg_instantNavigation = None\<rparr>"

text \<open>The object literal of lines 5-11.\<close>

definition options_literal ::
  "(string \<rightharpoonup> jsval) \<Rightarrow> argument \<Rightarrow> js_error + static_options" where
  "options_literal globals arg =
     (case (case arg of ArgUndefined \<Rightarrow> Some empty_options
                      | ArgNull \<Rightarrow> None
                      | ArgObject obj \<Rightarrow> Some obj) of
        None \<Rightarrow> Inl (TypeError ''Cannot read properties of null (reading hoverDelay)'')
      | Some options \<Rightarrow>
          (let dl = or_num (arg_hoverDelay options) 20;
               mc = or_num (arg_maxConcurrent options) 3;
               am = or_bool (arg_aggressiveMode options) True
           in (case globals ''tre'' of
                 None \<Rightarrow> Inl (ReferenceError ''tre is not defined'')
               | Some tre \<Rightarrow>
                   Inr \<lparr>hoverDelay = spread (arg_hoverDelay options) dl,
                        opt_maxConcurrent = spread (arg_maxConcurrent options) mc,
                        aggressiveMode = spread (arg_aggressiveMode options) am,
                        instantNavigation =
                          spread (arg_instantNavigation options)
                            (strict_neq (arg_instantNavigation options) tre)\<rparr>)))"

text \<open>\<open>init()\<close>, lines 31-54. \<open>articles\<close> are the \<open>article[onclick]\<close> elements
  of the page, each given by what \<open>extractURL\<close> returns for it. The result: the
  listeners registered on the document, the timeouts set by \<open>prefetchVisible\<close> (delay,
  URL, priority) and the elements given to the intersection observer.\<close>

fun prefetchVisible :: "nat \<Rightarrow> string option list \<Rightarrow> (nat \<times> string \<times> priority) list" where
  "prefetchVisible i [] = []"
| "prefetchVisible i (None # as) = prefetchVisible (i + 1) as"
| "prefetchVisible i (Some url # as) = (i * 200, url, Low) # prefetchVisible (i + 1) as"

definition init ::
  "static_options \<Rightarrow> bool \<Rightarrow> string option list \<Rightarrow>
     string list \<times> (nat \<times> string \<times> priority) list \<times> string option list" where
  "init opts should articles =
     (if \<not> should then ([], [], [])
      else
        ([''mouseenter'', ''mouseleave''] @ (if instantNavigation opts then [''click''] else []),
         (if aggressiveMode opts then prefetchVisible 0 articles else []),
         articles))"

definition constructor ::
  "(string \<rightharpoonup> jsval) \<Rightarrow> connection option \<Rightarrow> string option list \<Rightarrow> argument \<Rightarrow>
     js_error + static_prefetcher" where
  "constructor globals conn articles arg =
     (case options_literal globals arg of
        Inl err \<Rightarrow> Inl err
      | Inr opts \<Rightarrow>
          (let should = checkConnection conn in
           (case init opts should articles of
              (ls, sched, obs) \<Rightarrow>
                Inr \<lparr>inst_options = opts,
                     inst_queue = new_prefetcher (opt_maxConcurrent opts),
                     inst_hover = new_hover (nat (hoverDelay opts)),
                     shouldPrefetch = should,
                     listeners = ls, scheduled = sched, observed = obs\<rparr>)))"

text \<open>The auto-initialisation at the end of the file, lines 271-290:
  \<open>window.prefetcher\<close> is assigned only if the constructor returns.\<close>

definition auto_init ::
  "(string \<rightharpoonup> jsval) \<Rightarrow> connection option \<Rightarrow> string option list \<Rightarrow>
     js_error + static_prefetcher" where
  "auto_init globals conn articles =
     constructor globals conn articles
       (ArgObject \<lparr>arg_hoverDelay = Some 65, arg_maxConcurrent = Some 3,
                   arg_aggressiveMode = Some False, arg_instantNavigation = Some True\<rparr>)"

section \<open>The slot count stays within the limit\<close>

lemma maxConcurrent_prefetch [simp]: "maxConcurrent (prefetch s url pr) = maxConcurrent s"
  by (simp add: prefetch_def)

lemma maxConcurrent_processQueue [simp]: "maxConcurrent (processQueue s) = maxConcurrent s"
  by (simp add: processQueue_def split: list.splits)

lemma maxConcurrent_settle [simp]: "maxConcurrent (settle s url res d t) = maxConcurrent s"
  by (simp add: settle_def Let_def split: fetch_result.splits bool.splits)

lemma maxConcurrent_resume [simp]:
  "maxConcurrent (prefetch_resume s url res d t) = maxConcurrent s"
  by (simp add: prefetch_resume_def)

lemma maxConcurrent_step: "step s ev = Some s' \<Longrightarrow> maxConcurrent s' = maxConcurrent s"
  by (cases ev) (auto simp: clearCache_def split: if_splits)

lemma maxConcurrent_run: "run s evs = Some s' \<Longrightarrow> maxConcurrent s' = maxConcurrent s"
  by (induction evs arbitrary: s) (auto split: option.splits dest: maxConcurrent_step)

lemma slots_ok_prefetch: "slots_ok s \<Longrightarrow> slots_ok (prefetch s url pr)"
  by (auto simp: slots_ok_def prefetch_def)

lemma slots_ok_processQueue: "slots_ok s \<Longrightarrow> slots_ok (processQueue s)"
proof -
  assume ok: "slots_ok s"
  have "slots_ok (s\<lparr>prefetchQueue := rest\<rparr>)" for rest
    using ok by (simp add: slots_ok_def)
  then show ?thesis
    using ok by (auto simp: processQueue_def split: list.splits intro: slots_ok_prefetch)
qed

lemma length_remove1_int:
  "x \<in> set xs \<Longrightarrow> int (length (remove1 x xs)) = int (length xs) - 1"
proof -
  assume "x \<in> set xs"
  then have "0 < length xs" by (rule length_pos_if_in_set)
  then have "int (length xs - 1) = int (length xs) - 1" by linarith
  with \<open>x \<in> set xs\<close> show ?thesis by (simp add: length_remove1)
qed

lemma activePrefetches_settle [simp]:
  "activePrefetches (settle s url res d t) = activePrefetches s - 1"
  by (simp add: settle_def Let_def split: fetch_result.splits bool.splits)

lemma inflight_settle [simp]: "inflight (settle s url res d t) = remove1 url (inflight s)"
  by (simp add: settle_def Let_def split: fetch_result.splits bool.splits)

lemma prefetchQueue_settle [simp]: "prefetchQueue (settle s url res d t) = prefetchQueue s"
  by (simp add: settle_def Let_def split: fetch_result.splits bool.splits)

lemma fetchLog_settle [simp]: "fetchLog (settle s url res d t) = fetchLog s"
  by (simp add: settle_def Let_def split: fetch_result.splits bool.splits)

lemma slots_ok_settle:
  "slots_ok s \<Longrightarrow> url \<in> set (inflight s) \<Longrightarrow> slots_ok (settle s url res d t)"
  by (simp add: slots_ok_def length_remove1_int)

lemma slots_ok_resume:
  "slots_ok s \<Longrightarrow> url \<in> set (inflight s) \<Longrightarrow> slots_ok (prefetch_resume s url res d t)"
  by (simp add: prefetch_resume_def slots_ok_processQueue slots_ok_settle)

lemma slots_ok_step: "slots_ok s \<Longrightarrow> step s ev = Some s' \<Longrightarrow> slots_ok s'"
proof (cases ev)
  case (Request url pr)
  then show "slots_ok s \<Longrightarrow> step s ev = Some s' \<Longrightarrow> slots_ok s'"
    by (auto simp: slots_ok_prefetch)
next
  case (Complete url res d t)
  then show "slots_ok s \<Longrightarrow> step s ev = Some s' \<Longrightarrow> slots_ok s'"
    by (auto simp: slots_ok_resume split: if_splits)
next
  case ClearCache
  then show "slots_ok s \<Longrightarrow> step s ev = Some s' \<Longrightarrow> slots_ok s'"
    by (auto simp: clearCache_def slots_ok_def)
qed

lemma slots_ok_run: "slots_ok s \<Longrightarrow> run s evs = Some s' \<Longrightarrow> slots_ok s'"
  by (induction evs arbitrary: s) (auto split: option.splits dest: slots_ok_step)

lemma slots_ok_new: "0 \<le> k \<Longrightarrow> slots_ok (new_prefetcher k)"
  by (simp add: slots_ok_def new_prefetcher_def)

section \<open>Bookkeeping invariants of the queue\<close>

lemma tidy_fields:
  "inflight s' = inflight s \<Longrightarrow> prefetched s' = prefetched s \<Longrightarrow> cache s' = cache s \<Longrightarrow>
   prefetchQueue s' = prefetchQueue s \<Longrightarrow> tidy s' = tidy s"
  by (simp add: tidy_def)

lemma queue_ok_prefetch: "queue_ok s \<Longrightarrow> queue_ok (prefetch s url pr)"
  unfolding queue_ok_def tidy_def slots_ok_def prefetch_def
  by (auto simp: domIff)

lemma queue_ok_processQueue:
  assumes "slots_ok s" and "tidy s"
    and "prefetchQueue s \<noteq> [] \<longrightarrow> maxConcurrent s \<le> activePrefetches s + 1"
  shows "queue_ok (processQueue s)"
  using assms
  unfolding queue_ok_def tidy_def slots_ok_def processQueue_def prefetch_def
  by (auto simp: domIff split: list.splits)

lemma tidy_settle:
  assumes "tidy s" and "url \<in> set (inflight s)"
  shows "tidy (settle s url res d t)"
  using assms unfolding tidy_def settle_def Let_def
  by (auto simp: domIff split: fetch_result.splits bool.splits)

lemma queue_ok_resume:
  assumes "queue_ok s" and "url \<in> set (inflight s)"
  shows "queue_ok (prefetch_resume s url res d t)"
  unfolding prefetch_resume_def
proof (rule queue_ok_processQueue)
  show "slots_ok (settle s url res d t)"
    using assms by (simp add: queue_ok_def slots_ok_settle)
  show "tidy (settle s url res d t)"
    using assms by (simp add: queue_ok_def tidy_settle)
  show "prefetchQueue (settle s url res d t) \<noteq> [] \<longrightarrow>
          maxConcurrent (settle s url res d t) \<le> activePrefetches (settle s url res d t) + 1"
    using assms by (simp add: queue_ok_def)
qed

lemma queue_ok_step: "queue_ok s \<Longrightarrow> \<not> is_clear ev \<Longrightarrow> step s ev = Some s' \<Longrightarrow> queue_ok s'"
  by (cases ev) (auto simp: queue_ok_prefetch queue_ok_resume split: if_splits)

lemma queue_ok_run:
  "queue_ok s \<Longrightarrow> \<not> list_ex is_clear evs \<Longrightarrow> run s evs = Some s' \<Longrightarrow> queue_ok s'"
  by (induction evs arbitrary: s) (auto split: option.splits dest: queue_ok_step)

lemma queue_ok_new: "0 \<le> k \<Longrightarrow> queue_ok (new_prefetcher k)"
  by (simp add: queue_ok_def tidy_def slots_ok_def new_prefetcher_def)


lemma cache_prefetch [simp]: "cache (prefetch s url pr) = cache s"
  by (simp add: prefetch_def)

lemma cache_processQueue [simp]: "cache (processQueue s) = cache s"
  by (simp add: processQueue_def split: list.splits)

lemma queue_ok_reachable:
  "0 \<le> k \<Longrightarrow> run (new_prefetcher k) evs = Some s \<Longrightarrow> \<not> list_ex is_clear evs \<Longrightarrow> queue_ok s"
  using queue_ok_new queue_ok_run by blast

lemma request_noop:
  assumes "queue_ok s"
    and "url \<in> prefetched s \<or> cache s url \<noteq> None \<or> url \<in> set (prefetchQueue s)"
  shows "prefetch s url pr = s"
proof (cases "url \<in> prefetched s \<or> cache s url \<noteq> None")
  case True
  then show ?thesis by (auto simp: prefetch_def)
next
  case False
  with assms(2) have q: "url \<in> set (prefetchQueue s)" by simp
  then have "prefetchQueue s \<noteq> []" by auto
  with assms(1) have "maxConcurrent s \<le> activePrefetches s" by (simp add: queue_ok_def)
  with q False show ?thesis by (simp add: prefetch_def)
qed

lemma request_deferred:
  assumes "url \<notin> prefetched s" "cache s url = None" "url \<notin> set (prefetchQueue s)"
    "maxConcurrent s \<le> activePrefetches s"
  shows "prefetch s url pr = s\<lparr>prefetchQueue := prefetchQueue s @ [url]\<rparr>"
  using assms by (simp add: prefetch_def)

lemma drain_head:
  assumes "queue_ok s" and "prefetchQueue s = u # rest" and "url \<in> set (inflight s)"
  shows "prefetchQueue (prefetch_resume s url res d t) = rest \<and>
         fetchLog (prefetch_resume s url res d t) = fetchLog s @ [(u, High)] \<and>
         inflight (prefetch_resume s url res d t) = remove1 url (inflight s) @ [u]"
proof -
  let ?m = "settle s url res d t"
  have full: "activePrefetches s = maxConcurrent s"
    using assms(1,2) by (simp add: queue_ok_def slots_ok_def)
  have u: "u \<notin> prefetched s" "u \<noteq> url"
    using assms by (auto simp: queue_ok_def tidy_def)
  then have "cache s u = None"
    using assms(1) by (auto simp: queue_ok_def tidy_def)
  with u have fresh: "u \<notin> prefetched ?m" "cache ?m u = None"
    by (auto simp: settle_def Let_def split: fetch_result.splits bool.splits)
  have "processQueue ?m = prefetch (?m\<lparr>prefetchQueue := rest\<rparr>) u High"
    using assms(2) full by (simp add: processQueue_def)
  with fresh full show ?thesis
    by (simp add: prefetch_resume_def prefetch_def)
qed

lemma request_keeps_inflight: "\<exists>ys. inflight (prefetch s url pr) = inflight s @ ys"
  by (simp add: prefetch_def)



lemma failure_unmarks:
  assumes "queue_ok s" and "url \<in> set (inflight s)"
    and "res = NetworkError \<or> (\<exists>body. res = HttpResponse False body)"
  shows "url \<notin> prefetched (prefetch_resume s url res d t) \<and>
         cache (prefetch_resume s url res d t) url = None \<and>
         url \<notin> set (prefetchQueue (prefetch_resume s url res d t))"
proof -
  let ?m = "settle s url res d t"
  have q: "url \<notin> set (prefetchQueue s)" and c: "cache s url = None"
    using assms(1,2) by (auto simp: queue_ok_def tidy_def)
  have m: "url \<notin> prefetched ?m" "cache ?m = cache s" "prefetchQueue ?m = prefetchQueue s"
    using assms(3) by (auto simp: settle_def Let_def)
  have "url \<notin> prefetched (processQueue ?m) \<and> url \<notin> set (prefetchQueue (processQueue ?m))"
    using m(1,3) q by (auto simp: processQueue_def prefetch_def split: list.splits)
  with c m(2) show ?thesis by (simp add: prefetch_resume_def)
qed

lemma retry_after_failure:
  assumes "url \<notin> prefetched s" "cache s url = None" "url \<notin> set (prefetchQueue s)"
  shows "(activePrefetches s < maxConcurrent s \<longrightarrow>
            fetchLog (prefetch s url pr) = fetchLog s @ [(url, pr)]) \<and>
         (maxConcurrent s \<le> activePrefetches s \<longrightarrow>
            prefetchQueue (prefetch s url pr) = prefetchQueue s @ [url])"
  using assms by (simp add: prefetch_def)

section \<open>How often a URL is fetched\<close>

lemma unmarked_prefetch [simp]: "unmarked_fetches url (prefetch s u pr) = unmarked_fetches url s"
  by (auto simp: unmarked_fetches_def fetches_def prefetch_def)

lemma unmarked_queue_upd [simp]:
  "unmarked_fetches url (s\<lparr>prefetchQueue := q\<rparr>) = unmarked_fetches url s"
  by (simp add: unmarked_fetches_def fetches_def)

lemma unmarked_processQueue [simp]:
  "unmarked_fetches url (processQueue s) = unmarked_fetches url s"
  by (simp add: processQueue_def split: list.splits)

lemma unmarked_settle:
  assumes "tidy s" "u \<in> set (inflight s)"
  shows "unmarked_fetches url (settle s u res d t) =
         unmarked_fetches url s + (if failed url (Complete u res d t) then 1 else 0)"
proof -
  from assms have u: "u \<in> prefetched s" by (auto simp: tidy_def)
  show ?thesis
  proof (cases res)
    case NetworkError
    with u show ?thesis
      by (auto simp: unmarked_fetches_def fetches_def settle_def)
  next
    case (HttpResponse ok body)
    with u show ?thesis
      by (cases ok) (auto simp: unmarked_fetches_def fetches_def settle_def)
  qed
qed

lemma unmarked_step:
  assumes "queue_ok s" "\<not> is_clear ev" "step s ev = Some s'"
  shows "unmarked_fetches url s' = unmarked_fetches url s + (if failed url ev then 1 else 0)"
proof (cases ev)
  case (Request u pr)
  with assms show ?thesis by auto
next
  case (Complete u res d t)
  with assms(3) have u: "u \<in> set (inflight s)" and s': "s' = prefetch_resume s u res d t"
    by (auto split: if_splits)
  from assms(1) have "tidy s" by (simp add: queue_ok_def)
  from unmarked_settle [OF this u] show ?thesis
    by (simp add: s' Complete prefetch_resume_def)
next
  case ClearCache
  with assms show ?thesis by simp
qed

lemma unmarked_run:
  assumes "queue_ok s" "\<not> list_ex is_clear evs" "run s evs = Some s'"
  shows "unmarked_fetches url s' = unmarked_fetches url s + int (length (filter (failed url) evs))"
  using assms
proof (induction evs arbitrary: s)
  case Nil
  then show ?case by simp
next
  case (Cons ev evs)
  then obtain s1 where s1: "step s ev = Some s1" "run s1 evs = Some s'"
    by (auto split: option.splits)
  from Cons.prems have nc: "\<not> is_clear ev" "\<not> list_ex is_clear evs" by auto
  have ok1: "queue_ok s1" using Cons.prems(1) nc(1) s1(1) by (rule queue_ok_step)
  from unmarked_step [OF Cons.prems(1) nc(1) s1(1), of url] Cons.IH [OF ok1 nc(2) s1(2)]
  show ?case by simp
qed

text \<open>In StaticPrefetcher, as long as \<open>clearCache\<close> is not called, a URL has been
  fetched once for each of its failed fetches, and once more if it is marked prefetched:
  a URL whose fetch succeeded has been fetched exactly once since its last failure, however
  often it was requested.\<close>

lemma fetch_count:
  assumes "0 \<le> k" "run (new_prefetcher k) evs = Some s" "\<not> list_ex is_clear evs"
  shows "fetches url s = (if url \<in> prefetched s then 1 else 0) + length (filter (failed url) evs)"
proof -
  have "unmarked_fetches url s =
        unmarked_fetches url (new_prefetcher k) + int (length (filter (failed url) evs))"
    using queue_ok_new [OF assms(1)] assms(3,2) by (rule unmarked_run)
  then show ?thesis
    by (simp add: unmarked_fetches_def fetches_def new_prefetcher_def split: if_splits)
qed

section \<open>Invariants of the hover timers\<close>

lemma now_mouseenter [simp]: "now (mouseenter i h url) = now h"
  by (cases i) (auto simp: scheduleHoverPrefetch_def handleMouseEnter_def setTimeout_def
      clearTimeout_def Let_def split: option.splits)

lemma delay_mouseenter [simp]: "delay (mouseenter i h url) = delay h"
  by (cases i) (auto simp: scheduleHoverPrefetch_def handleMouseEnter_def setTimeout_def
      clearTimeout_def Let_def split: option.splits)

lemma calls_mouseenter [simp]: "prefetchCalls (mouseenter i h url) = prefetchCalls h"
  by (cases i) (auto simp: scheduleHoverPrefetch_def handleMouseEnter_def setTimeout_def
      clearTimeout_def Let_def split: option.splits)

lemma mouseleave_clears:
  "i = Static \<or> q \<noteq> SelectorError \<Longrightarrow>
   mouseleave i h url q =
     (case hoverTimers h url of
        Some t \<Rightarrow> (clearTimeout h t)\<lparr>hoverTimers := (hoverTimers h)(url := None)\<rparr>
      | None \<Rightarrow> h)"
  by (cases i; cases q)
    (auto simp: mouseleave_listener_def handleMouseLeave_def split: option.splits)

lemma mouseleave_throws: "mouseleave Article h url SelectorError = h"
  by (simp add: handleMouseLeave_def)

lemma mouseleave_cases:
  "mouseleave i h url q = h \<or>
   mouseleave i h url q =
     (case hoverTimers h url of
        Some t \<Rightarrow> (clearTimeout h t)\<lparr>hoverTimers := (hoverTimers h)(url := None)\<rparr>
      | None \<Rightarrow> h)"
  using mouseleave_clears [of i q h url] mouseleave_throws [of h url]
  by (cases i; cases q) auto

lemma now_mouseleave [simp]: "now (mouseleave i h url q) = now h"
  using mouseleave_cases [of i h url q] by (auto simp: clearTimeout_def split: option.splits)

lemma delay_mouseleave [simp]: "delay (mouseleave i h url q) = delay h"
  using mouseleave_cases [of i h url q] by (auto simp: clearTimeout_def split: option.splits)

lemma calls_mouseleave [simp]: "prefetchCalls (mouseleave i h url q) = prefetchCalls h"
  using mouseleave_cases [of i h url q] by (auto simp: clearTimeout_def split: option.splits)

lemma timers_mouseenter:
  "timers (mouseenter i h u) t = Some tm \<Longrightarrow>
   timers h t = Some tm \<or> (target tm = u \<and> due tm = now h + delay h)"
  by (cases i)
    (auto simp: scheduleHoverPrefetch_def handleMouseEnter_def setTimeout_def clearTimeout_def
      Let_def split: if_splits option.splits)

lemma timers_mouseleave: "timers (mouseleave i h u q) t = Some tm \<Longrightarrow> timers h t = Some tm"
  using mouseleave_cases [of i h u q]
  by (auto simp: clearTimeout_def split: if_splits option.splits)

lemma hover_ok_mouseenter: "hover_ok h \<Longrightarrow> hover_ok (mouseenter i h url)"
proof (cases i)
  case Static
  assume "hover_ok h"
  then show ?thesis
    unfolding Static hover_ok_def
    by (auto simp: scheduleHoverPrefetch_def setTimeout_def less_Suc_eq split: if_splits)
next
  case Article
  assume "hover_ok h"
  then show ?thesis
    unfolding Article hover_ok_def
    by (auto simp: handleMouseEnter_def setTimeout_def clearTimeout_def Let_def less_Suc_eq
        split: if_splits option.splits)
qed

lemma hover_ok_cleared:
  "hover_ok h \<Longrightarrow>
   hover_ok (case hoverTimers h url of
               Some t \<Rightarrow> (clearTimeout h t)\<lparr>hoverTimers := (hoverTimers h)(url := None)\<rparr>
             | None \<Rightarrow> h)"
  unfolding hover_ok_def
  by (auto simp: clearTimeout_def split: if_splits option.splits)

lemma hover_ok_mouseleave: "hover_ok h \<Longrightarrow> hover_ok (mouseleave i h url q)"
  using mouseleave_cases [of i h url q] hover_ok_cleared [of h url] by auto

lemma one_timer:
  assumes "hover_ok h" "timers h t1 = Some tm1" "timers h t2 = Some tm2" "target tm1 = target tm2"
  shows "t1 = t2"
proof -
  from assms(1,2) have "hoverTimers h (target tm1) = Some t1" by (simp add: hover_ok_def)
  moreover from assms(1,3) have "hoverTimers h (target tm2) = Some t2" by (simp add: hover_ok_def)
  ultimately show ?thesis using assms(4) by simp
qed

lemma hover_ok_fire:
  assumes "hover_ok h" "timers h t = Some tm"
  shows "hover_ok (timer_callback (h\<lparr>timers := (timers h)(t := None)\<rparr>) (target tm))"
proof -
  have "target tm' \<noteq> target tm" if "timers h t' = Some tm'" "t' \<noteq> t" for t' tm'
    using one_timer [OF assms(1) that(1) assms(2)] that(2) by auto
  with assms(1) show ?thesis
    unfolding hover_ok_def timer_callback_def by (auto split: if_splits)
qed

lemma hover_ok_step: "hover_ok h \<Longrightarrow> hover_step i h ev = Some h' \<Longrightarrow> hover_ok h'"
proof (cases ev)
  case (Enter u)
  then show "hover_ok h \<Longrightarrow> hover_step i h ev = Some h' \<Longrightarrow> hover_ok h'"
    by (auto simp: hover_ok_mouseenter)
next
  case (Leave u q)
  then show "hover_ok h \<Longrightarrow> hover_step i h ev = Some h' \<Longrightarrow> hover_ok h'"
    by (auto simp: hover_ok_mouseleave)
next
  case (Fire t)
  then show "hover_ok h \<Longrightarrow> hover_step i h ev = Some h' \<Longrightarrow> hover_ok h'"
    by (auto simp: hover_ok_fire split: option.splits if_splits)
next
  case (Advance n)
  then show "hover_ok h \<Longrightarrow> hover_step i h ev = Some h' \<Longrightarrow> hover_ok h'"
    by (auto simp: hover_ok_def)
qed

lemma hover_ok_run: "hover_ok h \<Longrightarrow> hover_run i h evs = Some h' \<Longrightarrow> hover_ok h'"
  by (induction evs arbitrary: h) (auto split: option.splits dest: hover_ok_step)

lemma hover_ok_new: "hover_ok (new_hover d)"
  by (simp add: hover_ok_def new_hover_def)

lemma now_mono_step: "hover_step i h ev = Some h' \<Longrightarrow> now h \<le> now h'"
  by (cases ev) (auto simp: timer_callback_def split: option.splits if_splits)

lemma now_mono_run: "hover_run i h evs = Some h' \<Longrightarrow> now h \<le> now h'"
proof (induction evs arbitrary: h)
  case Nil
  then show ?case by simp
next
  case (Cons ev evs)
  then obtain h1 where "hover_step i h ev = Some h1" "hover_run i h1 evs = Some h'"
    by (auto split: option.splits)
  then show ?case using Cons.IH now_mono_step by (meson le_trans)
qed

lemma due_from_mouseenter: "due_from T url h \<Longrightarrow> due_from T url (mouseenter i h u)"
  unfolding due_from_def using timers_mouseenter [of i h u] by fastforce

lemma due_from_mouseleave: "due_from T url h \<Longrightarrow> due_from T url (mouseleave i h u q)"
  unfolding due_from_def using timers_mouseleave [of i h u q] by fastforce

lemma quiet_step:
  assumes "due_from T url h" "hover_step i h ev = Some h'" "now h < T"
  shows "due_from T url h' \<and> count_list (prefetchCalls h') url = count_list (prefetchCalls h) url"
proof (cases ev)
  case (Enter u)
  with assms show ?thesis by (auto simp: due_from_mouseenter)
next
  case (Leave u q)
  with assms show ?thesis by (auto simp: due_from_mouseleave)
next
  case (Fire t)
  with assms obtain tm where tm: "timers h t = Some tm" "due tm \<le> now h"
    and h': "h' = timer_callback (h\<lparr>timers := (timers h)(t := None)\<rparr>) (target tm)"
    by (auto split: option.splits if_splits)
  have "T \<le> due tm" if "target tm = url"
    using assms(1) tm(1) that by (simp add: due_from_def)
  with tm(2) assms(3) have "target tm \<noteq> url" by auto
  with assms(1) show ?thesis
    by (auto simp: h' due_from_def timer_callback_def split: if_splits)
next
  case (Advance n)
  with assms show ?thesis by (auto simp: due_from_def)
qed

lemma quiet_run:
  assumes "due_from T url h" "hover_run i h evs = Some h'" "now h' < T"
  shows "count_list (prefetchCalls h') url = count_list (prefetchCalls h) url"
  using assms
proof (induction evs arbitrary: h)
  case Nil
  then show ?case by simp
next
  case (Cons ev evs)
  then obtain h1 where h1: "hover_step i h ev = Some h1" "hover_run i h1 evs = Some h'"
    by (auto split: option.splits)
  have "now h \<le> now h1" "now h1 \<le> now h'"
    using h1 now_mono_step now_mono_run by blast+
  with Cons.prems(3) have "now h < T" by simp
  with Cons.prems(1) h1(1) have
    "due_from T url h1 \<and> count_list (prefetchCalls h1) url = count_list (prefetchCalls h) url"
    by (rule quiet_step)
  with Cons.IH [OF _ h1(2) Cons.prems(3)] show ?case by simp
qed

lemma no_timer_step:
  assumes "no_timer_for url h" "hover_step i h ev = Some h'" "ev \<noteq> Enter url"
  shows "no_timer_for url h' \<and> count_list (prefetchCalls h') url = count_list (prefetchCalls h) url"
proof (cases ev)
  case (Enter u)
  with assms have "u \<noteq> url" and h': "h' = mouseenter i h u" by auto
  with assms(1) timers_mouseenter [of i h u] have "no_timer_for url h'"
    unfolding no_timer_for_def by fastforce
  then show ?thesis by (simp add: h')
next
  case (Leave u q)
  with assms have h': "h' = mouseleave i h u q" by auto
  with assms(1) timers_mouseleave [of i h u q] have "no_timer_for url h'"
    unfolding no_timer_for_def by fastforce
  then show ?thesis by (simp add: h')
next
  case (Fire t)
  with assms obtain tm where tm: "timers h t = Some tm"
    and h': "h' = timer_callback (h\<lparr>timers := (timers h)(t := None)\<rparr>) (target tm)"
    by (auto split: option.splits if_splits)
  from tm assms(1) have "target tm \<noteq> url" by (simp add: no_timer_for_def)
  moreover have "no_timer_for url h'"
    using assms(1) unfolding h' no_timer_for_def timer_callback_def
    by (simp split: if_splits)
  ultimately show ?thesis by (simp add: h' timer_callback_def)
next
  case (Advance n)
  with assms have h': "h' = h\<lparr>now := now h + n\<rparr>" by auto
  have "no_timer_for url h' = no_timer_for url h" by (simp add: h' no_timer_for_def)
  with assms(1) show ?thesis by (simp add: h')
qed

lemma no_timer_run:
  assumes "no_timer_for url h" "hover_run i h evs = Some h'" "Enter url \<notin> set evs"
  shows "count_list (prefetchCalls h') url = count_list (prefetchCalls h) url"
  using assms
proof (induction evs arbitrary: h)
  case Nil
  then show ?case by simp
next
  case (Cons ev evs)
  then obtain h1 where h1: "hover_step i h ev = Some h1" "hover_run i h1 evs = Some h'"
    by (auto split: option.splits)
  from Cons.prems(3) have ne: "ev \<noteq> Enter url" "Enter url \<notin> set evs" by auto
  from no_timer_step [OF Cons.prems(1) h1(1) ne(1)] Cons.IH [OF _ h1(2) ne(2)]
  show ?case by simp
qed

lemma idle_no_timer: "hover_ok h \<Longrightarrow> hoverTimers h url = None \<Longrightarrow> no_timer_for url h"
  by (auto simp: hover_ok_def no_timer_for_def)

lemma due_from_first_enter:
  assumes "hover_ok h" "hoverTimers h url = None"
  shows "due_from (now h + delay h) url (mouseenter i h url)"
  using idle_no_timer [OF assms] timers_mouseenter [of i h url]
  unfolding due_from_def no_timer_for_def by fastforce

lemma leave_no_timer:
  assumes "hover_ok h" and "i = Static \<or> q \<noteq> SelectorError"
  shows "no_timer_for url (mouseleave i h url q)"
  using assms(1) unfolding mouseleave_clears [OF assms(2)]
  by (auto simp: hover_ok_def no_timer_for_def clearTimeout_def split: option.splits if_splits)

lemma leave_after_fire: "mouseleave i (timer_callback g u) u q = timer_callback g u"
  using mouseleave_cases [of i "timer_callback g u" u q]
  by (auto simp: timer_callback_def)

lemma hover_run_append:
  "hover_run i h (xs @ ys) =
     (case hover_run i h xs of None \<Rightarrow> None | Some h' \<Rightarrow> hover_run i h' ys)"
  by (induction xs arbitrary: h) (auto split: option.splits)

lemma delay_step: "hover_step i h ev = Some h' \<Longrightarrow> delay h' = delay h"
  by (cases ev) (auto simp: timer_callback_def split: option.splits if_splits)

lemma delay_run: "hover_run i h evs = Some h' \<Longrightarrow> delay h' = delay h"
  by (induction evs arbitrary: h) (auto split: option.splits dest: delay_step)

lemma now_step: "hover_step i h ev = Some h' \<Longrightarrow> now h' = now h + elapsed [ev]"
  by (cases ev) (auto simp: timer_callback_def split: option.splits if_splits)

lemma elapsed_Cons: "elapsed (ev # evs) = elapsed [ev] + elapsed evs"
  by (cases ev) auto

lemma now_run: "hover_run i h evs = Some h' \<Longrightarrow> now h' = now h + elapsed evs"
proof (induction evs arbitrary: h)
  case Nil
  then show ?case by simp
next
  case (Cons ev evs)
  then obtain h1 where h1: "hover_step i h ev = Some h1" "hover_run i h1 evs = Some h'"
    by (auto split: option.splits)
  from now_step [OF h1(1)] Cons.IH [OF h1(2)] elapsed_Cons [of ev evs]
  show ?case by simp
qed

section \<open>What a completion does to the queue\<close>

lemma settle_nonneg:
  "slots_ok s \<Longrightarrow> url \<in> set (inflight s) \<Longrightarrow> 0 \<le> activePrefetches (settle s url res d t)"
  by (auto simp: slots_ok_def)

lemma drain_empty:
  "prefetchQueue s = [] \<Longrightarrow> prefetch_resume s fin res d t = settle s fin res d t"
  by (simp add: prefetch_resume_def processQueue_def)

lemma drain_pops:
  assumes "slots_ok s" and "prefetchQueue s = u # rest"
  shows "prefetch_resume s fin res d t =
           prefetch ((settle s fin res d t)\<lparr>prefetchQueue := rest\<rparr>) u High"
proof -
  from assms(1) have "activePrefetches s \<le> maxConcurrent s" by (simp add: slots_ok_def)
  then have "\<not> maxConcurrent (settle s fin res d t) \<le> activePrefetches (settle s fin res d t)"
    by simp
  with assms(2) show ?thesis by (simp add: prefetch_resume_def processQueue_def)
qed

lemma drain_admits:
  assumes "slots_ok s" and "prefetchQueue s = u # rest"
    and "u \<notin> prefetched (settle s fin res d t) \<and> cache (settle s fin res d t) u = None"
  shows "prefetchQueue (prefetch_resume s fin res d t) = rest \<and>
         activePrefetches (prefetch_resume s fin res d t) = activePrefetches s \<and>
         inflight (prefetch_resume s fin res d t) = remove1 fin (inflight s) @ [u] \<and>
         fetchLog (prefetch_resume s fin res d t) = fetchLog s @ [(u, High)]"
proof -
  from assms(1) have "activePrefetches s \<le> maxConcurrent s" by (simp add: slots_ok_def)
  then show ?thesis
    using assms(3) by (simp add: drain_pops [OF assms(1,2)] prefetch_def)
qed

lemma drain_drops:
  assumes "slots_ok s" and "prefetchQueue s = u # rest"
    and "u \<in> prefetched (settle s fin res d t) \<or> cache (settle s fin res d t) u \<noteq> None"
  shows "prefetchQueue (prefetch_resume s fin res d t) = rest \<and>
         activePrefetches (prefetch_resume s fin res d t) = activePrefetches s - 1 \<and>
         inflight (prefetch_resume s fin res d t) = remove1 fin (inflight s) \<and>
         fetchLog (prefetch_resume s fin res d t) = fetchLog s"
  using assms(3) by (auto simp: drain_pops [OF assms(1,2)] prefetch_def)

lemma drain_queue:
  assumes "slots_ok s" and "prefetchQueue s = u # rest"
  shows "prefetchQueue (prefetch_resume s fin res d t) = rest"
  using drain_admits [OF assms] drain_drops [OF assms] by blast

section \<open>Claims about the admission queue\<close>

text \<open>
  C1. Started with a limit \<open>k \<ge> 0\<close>, whatever calls of \<open>prefetch\<close> and
  \<open>clearCache\<close> are made and however the fetches settle, the counter of running
  prefetches stays between 0 and \<open>k\<close>, also between the decrement and the drain of
  a completion. A new URL requested while the counter is at \<open>k\<close> starts no fetch and
  ends in the pending list; one requested below \<open>k\<close> is admitted and the counter goes
  up by one. When the fetch of \<open>fin\<close> settles, with any result, the counter goes
  down by one, the call leaves the suspended ones, and the drain follows: with nothing
  pending the completion ends there; otherwise the head \<open>u\<close> of the pending list is
  taken off the list and given to \<open>prefetch\<close>, which admits it (the counter is back
  at its value, \<open>u\<close> is suspended and fetched) unless \<open>u\<close> is by then marked
  prefetched or cached (the counter stays one lower and nothing is fetched).
\<close>

theorem active_within_limit:
  assumes "0 \<le> k" and "run (new_prefetcher k) evs = Some s"
  shows "0 \<le> activePrefetches s \<and> activePrefetches s \<le> k \<and>
    (url \<notin> prefetched s \<and> cache s url = None \<and> activePrefetches s = k \<longrightarrow>
       activePrefetches (prefetch s url pr) = k \<and>
       inflight (prefetch s url pr) = inflight s \<and>
       fetchLog (prefetch s url pr) = fetchLog s \<and>
       url \<in> set (prefetchQueue (prefetch s url pr))) \<and>
    (url \<notin> prefetched s \<and> cache s url = None \<and> activePrefetches s < k \<longrightarrow>
       activePrefetches (prefetch s url pr) = activePrefetches s + 1 \<and>
       inflight (prefetch s url pr) = inflight s @ [url] \<and>
       fetchLog (prefetch s url pr) = fetchLog s @ [(url, pr)]) \<and>
    (fin \<in> set (inflight s) \<longrightarrow>
       activePrefetches (settle s fin res d t) = activePrefetches s - 1 \<and>
       0 \<le> activePrefetches (settle s fin res d t) \<and>
       inflight (settle s fin res d t) = remove1 fin (inflight s) \<and>
       prefetchQueue (settle s fin res d t) = prefetchQueue s \<and>
       fetchLog (settle s fin res d t) = fetchLog s \<and>
       (prefetchQueue s = [] \<longrightarrow> prefetch_resume s fin res d t = settle s fin res d t) \<and>
       (prefetchQueue s = u # rest \<longrightarrow>
          prefetch_resume s fin res d t =
            prefetch ((settle s fin res d t)\<lparr>prefetchQueue := rest\<rparr>) u High \<and>
          prefetchQueue (prefetch_resume s fin res d t) = rest \<and>
          (u \<notin> prefetched (settle s fin res d t) \<and> cache (settle s fin res d t) u = None \<longrightarrow>
             activePrefetches (prefetch_resume s fin res d t) = activePrefetches s \<and>
             inflight (prefetch_resume s fin res d t) = remove1 fin (inflight s) @ [u] \<and>
             fetchLog (prefetch_resume s fin res d t) = fetchLog s @ [(u, High)]) \<and>
          (u \<in> prefetched (settle s fin res d t) \<or> cache (settle s fin res d t) u \<noteq> None \<longrightarrow>
             activePrefetches (prefetch_resume s fin res d t) = activePrefetches s - 1 \<and>
             inflight (prefetch_resume s fin res d t) = remove1 fin (inflight s) \<and>
             fetchLog (prefetch_resume s fin res d t) = fetchLog s)))"
proof -
  have ok: "slots_ok s"
    using assms slots_ok_new slots_ok_run by blast
  have k: "maxConcurrent s = k"
    using maxConcurrent_run [OF assms(2)] by (simp add: new_prefetcher_def)
  have bounds: "0 \<le> activePrefetches s \<and> activePrefetches s \<le> k"
    using ok k by (simp add: slots_ok_def)
  have deferred: "activePrefetches (prefetch s url pr) = k \<and>
       inflight (prefetch s url pr) = inflight s \<and>
       fetchLog (prefetch s url pr) = fetchLog s \<and>
       url \<in> set (prefetchQueue (prefetch s url pr))"
    if "url \<notin> prefetched s \<and> cache s url = None \<and> activePrefetches s = k"
    using that k by (simp add: prefetch_def)
  have admitted: "activePrefetches (prefetch s url pr) = activePrefetches s + 1 \<and>
       inflight (prefetch s url pr) = inflight s @ [url] \<and>
       fetchLog (prefetch s url pr) = fetchLog s @ [(url, pr)]"
    if "url \<notin> prefetched s \<and> cache s url = None \<and> activePrefetches s < k"
    using that k by (simp add: prefetch_def)
  have settled: "activePrefetches (settle s fin res d t) = activePrefetches s - 1 \<and>
       0 \<le> activePrefetches (settle s fin res d t) \<and>
       inflight (settle s fin res d t) = remove1 fin (inflight s) \<and>
       prefetchQueue (settle s fin res d t) = prefetchQueue s \<and>
       fetchLog (settle s fin res d t) = fetchLog s"
    if "fin \<in> set (inflight s)"
    using settle_nonneg [OF ok that] by simp
  have nothing_pending: "prefetch_resume s fin res d t = settle s fin res d t"
    if "prefetchQueue s = []"
    using that by (rule drain_empty)
  have pops: "prefetch_resume s fin res d t =
            prefetch ((settle s fin res d t)\<lparr>prefetchQueue := rest\<rparr>) u High \<and>
          prefetchQueue (prefetch_resume s fin res d t) = rest"
    if "prefetchQueue s = u # rest"
    using drain_pops [OF ok that] drain_queue [OF ok that] by simp
  have admits: "activePrefetches (prefetch_resume s fin res d t) = activePrefetches s \<and>
             inflight (prefetch_resume s fin res d t) = remove1 fin (inflight s) @ [u] \<and>
             fetchLog (prefetch_resume s fin res d t) = fetchLog s @ [(u, High)]"
    if "prefetchQueue s = u # rest"
      "u \<notin> prefetched (settle s fin res d t) \<and> cache (settle s fin res d t) u = None"
    using drain_admits [OF ok that] by simp
  have drops: "activePrefetches (prefetch_resume s fin res d t) = activePrefetches s - 1 \<and>
             inflight (prefetch_resume s fin res d t) = remove1 fin (inflight s) \<and>
             fetchLog (prefetch_resume s fin res d t) = fetchLog s"
    if "prefetchQueue s = u # rest"
      "u \<in> prefetched (settle s fin res d t) \<or> cache (settle s fin res d t) u \<noteq> None"
    using drain_drops [OF ok that] by simp
  from bounds deferred admitted settled nothing_pending pops admits drops
  show ?thesis by blast
qed

text \<open>The scenario of three URLs with limit 2: \<open>a\<close> and \<open>b\<close> start, \<open>c\<close>
  waits, and the completion of \<open>a\<close> starts \<open>c\<close>.\<close>

theorem active_within_limit_witness:
  "run (new_prefetcher 2) [Request ''a.html'' Low, Request ''b.html'' Low, Request ''c.html'' Low] =
     Some \<lparr>maxConcurrent = 2, prefetched = {''a.html'', ''b.html''}, cache = Map.empty,
           prefetchQueue = [''c.html''], activePrefetches = 2,
           inflight = [''a.html'', ''b.html''],
           fetchLog = [(''a.html'', Low), (''b.html'', Low)]\<rparr> \<and>
   activePrefetches (settle \<lparr>maxConcurrent = 2, prefetched = {''a.html'', ''b.html''},
           cache = Map.empty, prefetchQueue = [''c.html''], activePrefetches = 2,
           inflight = [''a.html'', ''b.html''],
           fetchLog = [(''a.html'', Low), (''b.html'', Low)]\<rparr>
        ''a.html'' NetworkError \<lparr>doc_main = None, doc_title = []\<rparr> 0) = 1 \<and>
   prefetchQueue (prefetch_resume \<lparr>maxConcurrent = 2, prefetched = {''a.html'', ''b.html''},
           cache = Map.empty, prefetchQueue = [''c.html''], activePrefetches = 2,
           inflight = [''a.html'', ''b.html''],
           fetchLog = [(''a.html'', Low), (''b.html'', Low)]\<rparr>
        ''a.html'' NetworkError \<lparr>doc_main = None, doc_title = []\<rparr> 0) = [] \<and>
   activePrefetches (prefetch_resume \<lparr>maxConcurrent = 2, prefetched = {''a.html'', ''b.html''},
           cache = Map.empty, prefetchQueue = [''c.html''], activePrefetches = 2,
           inflight = [''a.html'', ''b.html''],
           fetchLog = [(''a.html'', Low), (''b.html'', Low)]\<rparr>
        ''a.html'' NetworkError \<lparr>doc_main = None, doc_title = []\<rparr> 0) = 2 \<and>
   inflight (prefetch_resume \<lparr>maxConcurrent = 2, prefetched = {''a.html'', ''b.html''},
           cache = Map.empty, prefetchQueue = [''c.html''], activePrefetches = 2,
           inflight = [''a.html'', ''b.html''],
           fetchLog = [(''a.html'', Low), (''b.html'', Low)]\<rparr>
        ''a.html'' NetworkError \<lparr>doc_main = None, doc_title = []\<rparr> 0) = [''b.html'', ''c.html''] \<and>
   fetchLog (prefetch_resume \<lparr>maxConcurrent = 2, prefetched = {''a.html'', ''b.html''},
           cache = Map.empty, prefetchQueue = [''c.html''], activePrefetches = 2,
           inflight = [''a.html'', ''b.html''],
           fetchLog = [(''a.html'', Low), (''b.html'', Low)]\<rparr>
        ''a.html'' NetworkError \<lparr>doc_main = None, doc_title = []\<rparr> 0) =
     [(''a.html'', Low), (''b.html'', Low), (''c.html'', High)]"
proof -
  let ?s = "\<lparr>maxConcurrent = 2, prefetched = {''a.html'', ''b.html''}, cache = Map.empty,
           prefetchQueue = [''c.html''], activePrefetches = 2,
           inflight = [''a.html'', ''b.html''],
           fetchLog = [(''a.html'', Low), (''b.html'', Low)]\<rparr>"
  let ?d = "\<lparr>doc_main = None, doc_title = []\<rparr>"
  have r: "run (new_prefetcher 2)
      [Request ''a.html'' Low, Request ''b.html'' Low, Request ''c.html'' Low] = Some ?s"
    by (simp add: new_prefetcher_def prefetch_def insert_commute)
  have k: "(0::int) \<le> 2" by simp
  have fresh: "''c.html'' \<notin> prefetched (settle ?s ''a.html'' NetworkError ?d 0) \<and>
      cache (settle ?s ''a.html'' NetworkError ?d 0) ''c.html'' = None"
    by (simp add: settle_def)
  have "activePrefetches (settle ?s ''a.html'' NetworkError ?d 0) = 1 \<and>
      prefetchQueue (prefetch_resume ?s ''a.html'' NetworkError ?d 0) = [] \<and>
      activePrefetches (prefetch_resume ?s ''a.html'' NetworkError ?d 0) = 2 \<and>
      inflight (prefetch_resume ?s ''a.html'' NetworkError ?d 0) = [''b.html'', ''c.html''] \<and>
      fetchLog (prefetch_resume ?s ''a.html'' NetworkError ?d 0) =
        [(''a.html'', Low), (''b.html'', Low), (''c.html'', High)]"
    using active_within_limit [OF k r, where url = "''d.html''" and pr = High
        and fin = "''a.html''" and res = NetworkError
        and d = ?d and t = 0 and u = "''c.html''" and rest = "[]"] fresh
    by (simp add: settle_def prefetch_def)
  with r show ?thesis by blast
qed

text \<open>
  C2 (as amended). The pending list holds URLs only, with no priority. In every state
  the prefetcher reaches: a new URL requested while the counter is at the limit is
  appended at the tail of the pending list whatever its priority; when a fetch settles
  while URLs are pending, the head of the list is taken off, the rest keeps its order,
  and the head is the only URL that drain can admit: it is admitted, with priority
  \<open>High\<close>, when it is not by then marked prefetched or cached, and dropped
  otherwise; as long as \<open>clearCache\<close> has not been called it is always admitted. A
  request never removes a suspended call.
\<close>

theorem pending_fifo:
  assumes "0 \<le> k" and "run (new_prefetcher k) evs = Some s"
  shows "(url \<notin> prefetched s \<and> cache s url = None \<and> url \<notin> set (prefetchQueue s) \<and>
          k \<le> activePrefetches s \<longrightarrow>
            prefetch s url pr = s\<lparr>prefetchQueue := prefetchQueue s @ [url]\<rparr>) \<and>
         (prefetchQueue s = u # rest \<and> fin \<in> set (inflight s) \<longrightarrow>
            prefetchQueue (prefetch_resume s fin res d t) = rest \<and>
            (u \<notin> prefetched (settle s fin res d t) \<and> cache (settle s fin res d t) u = None \<longrightarrow>
               fetchLog (prefetch_resume s fin res d t) = fetchLog s @ [(u, High)] \<and>
               inflight (prefetch_resume s fin res d t) = remove1 fin (inflight s) @ [u]) \<and>
            (u \<in> prefetched (settle s fin res d t) \<or> cache (settle s fin res d t) u \<noteq> None \<longrightarrow>
               fetchLog (prefetch_resume s fin res d t) = fetchLog s \<and>
               inflight (prefetch_resume s fin res d t) = remove1 fin (inflight s)) \<and>
            (\<not> list_ex is_clear evs \<longrightarrow>
               fetchLog (prefetch_resume s fin res d t) = fetchLog s @ [(u, High)] \<and>
               inflight (prefetch_resume s fin res d t) = remove1 fin (inflight s) @ [u])) \<and>
         (\<exists>ys. inflight (prefetch s url pr) = inflight s @ ys)"
proof -
  have ok: "slots_ok s"
    using assms slots_ok_new slots_ok_run by blast
  have k: "maxConcurrent s = k"
    using maxConcurrent_run [OF assms(2)] by (simp add: new_prefetcher_def)
  have tail: "prefetch s url pr = s\<lparr>prefetchQueue := prefetchQueue s @ [url]\<rparr>"
    if "url \<notin> prefetched s \<and> cache s url = None \<and> url \<notin> set (prefetchQueue s) \<and>
        k \<le> activePrefetches s"
    using that k by (simp add: request_deferred)
  have pops: "prefetchQueue (prefetch_resume s fin res d t) = rest"
    if "prefetchQueue s = u # rest"
    using ok that by (rule drain_queue)
  have admits: "fetchLog (prefetch_resume s fin res d t) = fetchLog s @ [(u, High)] \<and>
               inflight (prefetch_resume s fin res d t) = remove1 fin (inflight s) @ [u]"
    if "prefetchQueue s = u # rest"
      "u \<notin> prefetched (settle s fin res d t) \<and> cache (settle s fin res d t) u = None"
    using drain_admits [OF ok that] by simp
  have drops: "fetchLog (prefetch_resume s fin res d t) = fetchLog s \<and>
               inflight (prefetch_resume s fin res d t) = remove1 fin (inflight s)"
    if "prefetchQueue s = u # rest"
      "u \<in> prefetched (settle s fin res d t) \<or> cache (settle s fin res d t) u \<noteq> None"
    using drain_drops [OF ok that] by simp
  have always: "fetchLog (prefetch_resume s fin res d t) = fetchLog s @ [(u, High)] \<and>
               inflight (prefetch_resume s fin res d t) = remove1 fin (inflight s) @ [u]"
    if "prefetchQueue s = u # rest" "fin \<in> set (inflight s)" "\<not> list_ex is_clear evs"
  proof -
    have "queue_ok s" using assms that(3) by (rule queue_ok_reachable)
    from drain_head [OF this that(1,2)] show ?thesis by simp
  qed
  from tail pops admits drops always request_keeps_inflight [of s url pr]
  show ?thesis by blast
qed

text \<open>With limit 1: \<open>c.html\<close> is appended behind \<open>b.html\<close>, and the completion of
  \<open>a.html\<close> admits \<open>b.html\<close>. After \<open>clearCache\<close>, \<open>x.html\<close> can be pending
  while its first fetch runs; when that fetch succeeds the drain drops \<open>x.html\<close> and
  admits nothing.\<close>

theorem pending_fifo_witness:
  "prefetch \<lparr>maxConcurrent = 1, prefetched = {''a.html''}, cache = Map.empty,
           prefetchQueue = [''b.html''], activePrefetches = 1, inflight = [''a.html''],
           fetchLog = [(''a.html'', High)]\<rparr> ''c.html'' High =
     \<lparr>maxConcurrent = 1, prefetched = {''a.html''}, cache = Map.empty,
           prefetchQueue = [''b.html'', ''c.html''], activePrefetches = 1, inflight = [''a.html''],
           fetchLog = [(''a.html'', High)]\<rparr> \<and>
   fetchLog (prefetch_resume \<lparr>maxConcurrent = 1, prefetched = {''a.html''}, cache = Map.empty,
           prefetchQueue = [''b.html''], activePrefetches = 1, inflight = [''a.html''],
           fetchLog = [(''a.html'', High)]\<rparr> ''a.html'' NetworkError
           \<lparr>doc_main = None, doc_title = []\<rparr> 0) = [(''a.html'', High), (''b.html'', High)] \<and>
   run (new_prefetcher 1) [Request ''x.html'' High, ClearCache, Request ''x.html'' High,
        Request ''y.html'' High] =
     Some \<lparr>maxConcurrent = 1, prefetched = {}, cache = Map.empty,
           prefetchQueue = [''x.html'', ''y.html''], activePrefetches = 1, inflight = [''x.html''],
           fetchLog = [(''x.html'', High)]\<rparr> \<and>
   fetchLog (prefetch_resume \<lparr>maxConcurrent = 1, prefetched = {}, cache = Map.empty,
           prefetchQueue = [''x.html'', ''y.html''], activePrefetches = 1, inflight = [''x.html''],
           fetchLog = [(''x.html'', High)]\<rparr> ''x.html'' (HttpResponse True ''X'')
           \<lparr>doc_main = Some ''X'', doc_title = ''X''\<rparr> 3) = [(''x.html'', High)] \<and>
   prefetchQueue (prefetch_resume \<lparr>maxConcurrent = 1, prefetched = {}, cache = Map.empty,
           prefetchQueue = [''x.html'', ''y.html''], activePrefetches = 1, inflight = [''x.html''],
           fetchLog = [(''x.html'', High)]\<rparr> ''x.html'' (HttpResponse True ''X'')
           \<lparr>doc_main = Some ''X'', doc_title = ''X''\<rparr> 3) = [''y.html'']"
proof -
  let ?s = "\<lparr>maxConcurrent = 1, prefetched = {''a.html''}, cache = Map.empty,
           prefetchQueue = [''b.html''], activePrefetches = 1, inflight = [''a.html''],
           fetchLog = [(''a.html'', High)]\<rparr>"
  let ?c = "\<lparr>maxConcurrent = 1, prefetched = {}, cache = Map.empty,
           prefetchQueue = [''x.html'', ''y.html''], activePrefetches = 1, inflight = [''x.html''],
           fetchLog = [(''x.html'', High)]\<rparr>"
  let ?d = "\<lparr>doc_main = None, doc_title = []\<rparr>"
  let ?x = "\<lparr>doc_main = Some ''X'', doc_title = ''X''\<rparr>"
  have r: "run (new_prefetcher 1) [Request ''a.html'' High, Request ''b.html'' Low] = Some ?s"
    by (simp add: new_prefetcher_def prefetch_def)
  have rc: "run (new_prefetcher 1) [Request ''x.html'' High, ClearCache, Request ''x.html'' High,
        Request ''y.html'' High] = Some ?c"
    by (simp add: new_prefetcher_def prefetch_def clearCache_def)
  have k: "(0::int) \<le> 1" by simp
  have fresh: "''b.html'' \<notin> prefetched (settle ?s ''a.html'' NetworkError ?d 0) \<and>
      cache (settle ?s ''a.html'' NetworkError ?d 0) ''b.html'' = None"
    by (simp add: settle_def)
  have cached: "cache (settle ?c ''x.html'' (HttpResponse True ''X'') ?x 3) ''x.html'' \<noteq> None"
    by (simp add: settle_def)
  have one: "prefetch ?s ''c.html'' High = ?s\<lparr>prefetchQueue := prefetchQueue ?s @ [''c.html'']\<rparr> \<and>
      fetchLog (prefetch_resume ?s ''a.html'' NetworkError ?d 0) =
        [(''a.html'', High), (''b.html'', High)]"
    using pending_fifo [OF k r, where url = "''c.html''" and pr = High and u = "''b.html''"
        and rest = "[]" and fin = "''a.html''" and res = NetworkError and d = ?d and t = 0] fresh
    by (simp add: settle_def prefetch_def)
  have two: "fetchLog (prefetch_resume ?c ''x.html'' (HttpResponse True ''X'') ?x 3) =
        [(''x.html'', High)] \<and>
      prefetchQueue (prefetch_resume ?c ''x.html'' (HttpResponse True ''X'') ?x 3) = [''y.html'']"
    using pending_fifo [OF k rc, where url = "''z.html''" and pr = High
        and u = "''x.html''" and rest = "[''y.html'']"
        and fin = "''x.html''" and res = "HttpResponse True ''X''" and d = ?x and t = 3] cached
    by (simp add: settle_def prefetch_def)
  from one have one': "prefetch ?s ''c.html'' High =
      \<lparr>maxConcurrent = 1, prefetched = {''a.html''}, cache = Map.empty,
       prefetchQueue = [''b.html'', ''c.html''], activePrefetches = 1, inflight = [''a.html''],
       fetchLog = [(''a.html'', High)]\<rparr>"
    by simp
  from one one' two rc show ?thesis by blast
qed

text \<open>
  C2 as stated fails: with limit 1, \<open>a.html\<close> running, \<open>b.html\<close> deferred with low
  priority and then \<open>c.html\<close> deferred with high priority, the completion of
  \<open>a.html\<close> admits \<open>b.html\<close>, and \<open>c.html\<close> stays pending.
\<close>

theorem priority_ignored_counterexample:
  "run (new_prefetcher 1)
     [Request ''a.html'' Low, Request ''b.html'' Low, Request ''c.html'' High,
      Complete ''a.html'' (HttpResponse True ''A'') \<lparr>doc_main = Some ''A'', doc_title = ''A''\<rparr> 7] =
   Some \<lparr>maxConcurrent = 1, prefetched = {''a.html'', ''b.html''},
         cache = [''a.html'' \<mapsto> \<lparr>html = ''A'', doc = \<lparr>doc_main = Some ''A'', doc_title = ''A''\<rparr>,
                                timestamp = 7\<rparr>],
         prefetchQueue = [''c.html''], activePrefetches = 1, inflight = [''b.html''],
         fetchLog = [(''a.html'', Low), (''b.html'', High)]\<rparr>"
  by (simp add: new_prefetcher_def prefetch_def prefetch_resume_def settle_def processQueue_def
      insert_commute)

section \<open>Claims about the hover timers\<close>

text \<open>
  When the pointer enters the element of an identifier that has no timer running and
  leaves it before the delay has elapsed, and the leave handler does not throw (it
  cannot in StaticPrefetcher), then whatever else happens in between and afterwards, no
  call of \<open>prefetch\<close> is made for that identifier until the pointer enters again.
  When a timeout has run, the call of \<open>prefetch\<close> is made and a leave that follows
  changes nothing.
\<close>

lemma leave_cancels_hover:
  assumes "hover_run i (new_hover d) pre = Some h"
    and "hoverTimers h url = None"
    and "hover_run i h (Enter url # mid @ Leave url q # post) = Some h2"
    and "elapsed mid < d"
    and "i = Static \<or> q \<noteq> SelectorError"
    and "Enter url \<notin> set post"
  shows "count_list (prefetchCalls h2) url = count_list (prefetchCalls h) url \<and>
    (hover_step i g (Fire t) = Some gf \<longrightarrow>
       (\<exists>tm. timers g t = Some tm \<and> prefetchCalls gf = prefetchCalls g @ [target tm] \<and>
             mouseleave i gf (target tm) q' = gf))"
proof -
  have ok: "hover_ok h" using hover_ok_new assms(1) by (rule hover_ok_run)
  have d: "delay h = d" using delay_run [OF assms(1)] by (simp add: new_hover_def)
  let ?e = "mouseenter i h url"
  from assms(3) obtain h1 where h1: "hover_run i ?e mid = Some h1"
    and h2: "hover_run i (mouseleave i h1 url q) post = Some h2"
    by (auto simp: hover_run_append split: option.splits)
  have "now h1 = now h + elapsed mid" using now_run [OF h1] by simp
  with assms(4) d have early: "now h1 < now h + delay h" by simp
  have "count_list (prefetchCalls h1) url = count_list (prefetchCalls ?e) url"
    using due_from_first_enter [OF ok assms(2)] h1 early by (rule quiet_run)
  then have c1: "count_list (prefetchCalls h1) url = count_list (prefetchCalls h) url" by simp
  have "hover_ok ?e" using ok by (rule hover_ok_mouseenter)
  then have "hover_ok h1" using h1 by (rule hover_ok_run)
  then have "no_timer_for url (mouseleave i h1 url q)" using assms(5) by (rule leave_no_timer)
  then have "count_list (prefetchCalls h2) url =
      count_list (prefetchCalls (mouseleave i h1 url q)) url"
    using h2 assms(6) by (rule no_timer_run)
  with c1 have first: "count_list (prefetchCalls h2) url = count_list (prefetchCalls h) url"
    by simp
  have second: "\<exists>tm. timers g t = Some tm \<and> prefetchCalls gf = prefetchCalls g @ [target tm] \<and>
             mouseleave i gf (target tm) q' = gf" if "hover_step i g (Fire t) = Some gf"
    using that by (auto simp: leave_after_fire split: option.splits if_splits)
      (simp add: timer_callback_def)
  from first second show ?thesis by blast
qed

text \<open>
  C8, at the failing input. In \<open>ArticlePrefetcher\<close> of prefetch.js with a delay of 50,
  for the slug \<open>a"b\<close>: the pointer enters at time 0 and leaves at time 10;
  \<open>document.querySelector\<close> throws on \<open>article[data-slug="a"b"]\<close>, so
  \<open>handleMouseLeave\<close> ends before it clears the timer, and at time 50 the timer runs
  and calls \<open>prefetchArticle\<close> for the slug. The listener of \<open>StaticPrefetcher\<close>
  builds no selector from the identifier: there the leave clears the timer, and at
  time 50 no timer is left to run.
\<close>

theorem article_leave_throws:
  "hover_run Article (new_hover 50)
     [Enter ''a\"b'', Advance 10, Leave ''a\"b'' SelectorError, Advance 40, Fire 1] =
     Some \<lparr>delay = 50, hoverTimers = Map.empty, timers = Map.empty, nextTimer = 2, now = 50,
           prefetchCalls = [''a\"b'']\<rparr> \<and>
   hover_run Static (new_hover 50)
     [Enter ''a\"b'', Advance 10, Leave ''a\"b'' SelectorError, Advance 40] =
     Some \<lparr>delay = 50, hoverTimers = Map.empty, timers = Map.empty, nextTimer = 2, now = 50,
           prefetchCalls = []\<rparr> \<and>
   hover_run Static (new_hover 50)
     [Enter ''a\"b'', Advance 10, Leave ''a\"b'' SelectorError, Advance 40, Fire 1] = None \<and>
   hover_run Article (new_hover 50)
     [Enter ''ab'', Advance 10, Leave ''ab'' CardFound, Advance 40, Fire 1] = None"
  by (simp add: new_hover_def handleMouseEnter_def handleMouseLeave_def scheduleHoverPrefetch_def
      mouseleave_listener_def setTimeout_def clearTimeout_def timer_callback_def numeral_2_eq_2)

text \<open>
  C4 (as amended). In both classes at most one timeout is pending per identifier. In
  \<open>StaticPrefetcher.scheduleHoverPrefetch\<close> a hover-enter for an identifier with a
  handle is ignored, and a timeout is created only when there is none. In
  \<open>ArticlePrefetcher.handleMouseEnter\<close> a hover-enter for an identifier with a handle
  clears the pending timeout and creates a new one, due a full delay later.
\<close>

theorem one_timer_per_identifier:
  assumes "hover_run i (new_hover d) evs = Some h"
  shows "(timers h t1 = Some tm1 \<and> timers h t2 = Some tm2 \<and> target tm1 = target tm2 \<longrightarrow> t1 = t2) \<and>
    (hoverTimers h url \<noteq> None \<longrightarrow> scheduleHoverPrefetch h url = h) \<and>
    (hoverTimers h url = None \<longrightarrow>
       timers (scheduleHoverPrefetch h url) =
         (timers h)(nextTimer h \<mapsto> \<lparr>due = now h + delay h, target = url\<rparr>) \<and>
       hoverTimers (scheduleHoverPrefetch h url) url = Some (nextTimer h)) \<and>
    (hoverTimers h url = Some old \<longrightarrow>
       timers (handleMouseEnter h url) =
         (timers h)(old := None, nextTimer h \<mapsto> \<lparr>due = now h + delay h, target = url\<rparr>) \<and>
       old \<noteq> nextTimer h \<and>
       hoverTimers (handleMouseEnter h url) url = Some (nextTimer h))"
proof -
  have ok: "hover_ok h" using hover_ok_new assms by (rule hover_ok_run)
  have a: "t1 = t2" if "timers h t1 = Some tm1 \<and> timers h t2 = Some tm2 \<and> target tm1 = target tm2"
    using one_timer [OF ok, of t1 tm1 t2 tm2] that by simp
  have b: "scheduleHoverPrefetch h url = h" if "hoverTimers h url \<noteq> None"
    using that by (simp add: scheduleHoverPrefetch_def)
  have c: "timers (scheduleHoverPrefetch h url) =
         (timers h)(nextTimer h \<mapsto> \<lparr>due = now h + delay h, target = url\<rparr>) \<and>
       hoverTimers (scheduleHoverPrefetch h url) url = Some (nextTimer h)"
    if "hoverTimers h url = None"
    using that by (simp add: scheduleHoverPrefetch_def setTimeout_def)
  have e: "timers (handleMouseEnter h url) =
         (timers h)(old := None, nextTimer h \<mapsto> \<lparr>due = now h + delay h, target = url\<rparr>) \<and>
       old \<noteq> nextTimer h \<and>
       hoverTimers (handleMouseEnter h url) url = Some (nextTimer h)"
    if "hoverTimers h url = Some old"
  proof -
    from ok that have "old < nextTimer h" by (auto simp: hover_ok_def)
    with that show ?thesis
      by (simp add: handleMouseEnter_def setTimeout_def clearTimeout_def)
  qed
  from a b c e show ?thesis by blast
qed

theorem one_timer_per_identifier_witness:
  "scheduleHoverPrefetch \<lparr>delay = 50, hoverTimers = [''a'' \<mapsto> 1],
       timers = [1 \<mapsto> \<lparr>due = 50, target = ''a''\<rparr>], nextTimer = 2, now = 30,
       prefetchCalls = []\<rparr> ''a'' =
     \<lparr>delay = 50, hoverTimers = [''a'' \<mapsto> 1],
       timers = [1 \<mapsto> \<lparr>due = 50, target = ''a''\<rparr>], nextTimer = 2, now = 30,
       prefetchCalls = []\<rparr> \<and>
   timers (handleMouseEnter \<lparr>delay = 50, hoverTimers = [''a'' \<mapsto> 1],
       timers = [1 \<mapsto> \<lparr>due = 50, target = ''a''\<rparr>], nextTimer = 2, now = 30,
       prefetchCalls = []\<rparr> ''a'') = [2 \<mapsto> \<lparr>due = 80, target = ''a''\<rparr>]"
proof -
  let ?h = "\<lparr>delay = 50, hoverTimers = [''a'' \<mapsto> 1],
       timers = [1 \<mapsto> \<lparr>due = 50, target = ''a''\<rparr>], nextTimer = 2, now = 30,
       prefetchCalls = []\<rparr>"
  have r: "hover_run Static (new_hover 50) [Enter ''a'', Advance 30] = Some ?h"
    by (simp add: new_hover_def scheduleHoverPrefetch_def setTimeout_def numeral_2_eq_2)
  from one_timer_per_identifier [OF r, of 1 "\<lparr>due = 50, target = ''a''\<rparr>" 1
      "\<lparr>due = 50, target = ''a''\<rparr>" "''a''" 1]
  show ?thesis by simp
qed

text \<open>
  C4 as stated fails for \<open>ArticlePrefetcher.handleMouseEnter\<close>: with a delay of 50, a
  second hover-enter at time 30 replaces the timeout due at 50 by one due at 80, so at
  time 50 the first handle cannot run; \<open>StaticPrefetcher\<close> runs it then.
\<close>

theorem hover_reset_counterexample:
  "hover_run Article (new_hover 50) [Enter ''a'', Advance 30, Enter ''a'', Advance 20] =
     Some \<lparr>delay = 50, hoverTimers = [''a'' \<mapsto> 2],
           timers = [2 \<mapsto> \<lparr>due = 80, target = ''a''\<rparr>], nextTimer = 3, now = 50,
           prefetchCalls = []\<rparr> \<and>
   hover_run Article (new_hover 50) [Enter ''a'', Advance 30, Enter ''a'', Advance 20, Fire 1] = None \<and>
   hover_run Static (new_hover 50) [Enter ''a'', Advance 30, Enter ''a'', Advance 20, Fire 1] =
     Some \<lparr>delay = 50, hoverTimers = Map.empty, timers = Map.empty, nextTimer = 2, now = 50,
           prefetchCalls = [''a'']\<rparr>"
  by (simp add: new_hover_def handleMouseEnter_def scheduleHoverPrefetch_def setTimeout_def
      clearTimeout_def timer_callback_def numeral_2_eq_2 numeral_3_eq_3)

section \<open>Claims about the cache\<close>




section \<open>Claims about the ArticlePrefetcher drafts\<close>

text \<open>
  C3, at the failing input. In prefetch.js, where the browser has no link prefetch and
  the limit is 2: after requests for \<open>a\<close> and \<open>b\<close>, two requests for \<open>c\<close> leave
  \<open>c\<close> twice in the pending list; when \<open>a\<close> completes \<open>c\<close> is fetched, and when
  that fetch fails the second entry makes \<open>processQueue\<close> fetch \<open>c\<close> again, with
  no new request. \<open>StaticPrefetcher.prefetch\<close> checks \<open>includes\<close> before
  \<open>push\<close> and holds \<open>c\<close> once.
\<close>

theorem article_duplicate_pending:
  "ap_prefetchQueue
     (prefetchArticle (prefetchArticle (prefetchArticle (prefetchArticle
        (new_article_prefetcher 2 False) ''a'') ''b'') ''c'') ''c'') = [''c'', ''c''] \<and>
   ap_fetchLog
     (prefetchArticle_resume
        (prefetchArticle_resume
           (prefetchArticle (prefetchArticle (prefetchArticle (prefetchArticle
              (new_article_prefetcher 2 False) ''a'') ''b'') ''c'') ''c'')
           ''a'' (HttpResponse True ''A''))
        ''c'' NetworkError) =
     [''./articles/a/index.html'', ''./articles/b/index.html'',
      ''./articles/c/index.html'', ''./articles/c/index.html''] \<and>
   prefetchQueue
     (prefetch (prefetch (prefetch (prefetch (new_prefetcher 2) ''a'' High) ''b'' High)
        ''c'' High) ''c'' High) = [''c'']"
  by (simp add: new_article_prefetcher_def prefetchArticle_resume_def articleUrl_def
      new_prefetcher_def prefetch_def)

text \<open>
  C7, at the failing input. In the markdown draft, the prefetch of \<open>x\<close> whose fetch
  returns a response that is not \<open>ok\<close> (or rejects): \<open>renderFile\<close> resolves to the
  error paragraph, which is stored in \<open>htmlCache\<close>; \<open>x\<close> stays in
  \<open>prefetchedSlugs\<close>, and a later request for \<open>x\<close> starts no fetch.
\<close>

theorem md_failure_cached:
  "htmlCache (md_prefetch_settles (\<lambda>md. md)
      (md_prefetchArticle (new_md_prefetcher 2) ''x'') ''x'' (HttpResponse False ''Not Found'')) ''x'' =
     Some ''<p class=\"text-red-500\">Error loading article content.</p>'' \<and>
   ''x'' \<in> prefetchedSlugs (md_prefetch_settles (\<lambda>md. md)
      (md_prefetchArticle (new_md_prefetcher 2) ''x'') ''x'' (HttpResponse False ''Not Found'')) \<and>
   md_fetchLog (md_prefetchArticle (md_prefetch_settles (\<lambda>md. md)
      (md_prefetchArticle (new_md_prefetcher 2) ''x'') ''x'' (HttpResponse False ''Not Found'')) ''x'') =
     [''./articles/x/article.md''] \<and>
   htmlCache (md_prefetch_settles (\<lambda>md. md)
      (md_prefetchArticle (new_md_prefetcher 2) ''x'') ''x'' NetworkError) ''x'' =
     Some ''<p class=\"text-red-500\">Error loading article content.</p>''"
  by (simp add: md_prefetch_settles_def md_prefetchArticle_resume_def md_prefetchArticle_def
      md_processQueue_def new_md_prefetcher_def renderFile_def error_markup_def articleMdUrl_def)

text \<open>The same for every state, renderer and result of the fetch: the \<open>catch\<close> block
  of the markdown draft is never reached through \<open>renderFile\<close>.\<close>

lemma md_failure_general:
  "htmlCache (md_prefetch_settles render s slug res) slug \<noteq> None \<and>
   (slug \<in> prefetchedSlugs s \<longrightarrow> slug \<in> prefetchedSlugs (md_prefetch_settles render s slug res))"
  by (auto simp: md_prefetch_settles_def md_prefetchArticle_resume_def md_prefetchArticle_def
      md_processQueue_def Let_def split: list.splits)

section \<open>Claims about the connection gate and the constructor\<close>

text \<open>
  C9. \<open>checkConnection\<close> returns false exactly when the browser has a connection
  object and its save-data flag is set or its effective type is \<open>slow-2g\<close> or
  \<open>2g\<close>; without a connection object it returns true. It is a function of the
  connection object alone. The constructor evaluates it once, into
  \<open>shouldPrefetch\<close>, and when it is false \<open>init\<close> registers nothing.
\<close>

theorem connection_gate:
  "(checkConnection conn = False) =
     (\<exists>c. conn = Some c \<and> (saveData c \<or> effectiveType c = ''slow-2g'' \<or> effectiveType c = ''2g'')) \<and>
   checkConnection None = True \<and>
   (constructor globals conn articles arg = Inr p \<longrightarrow>
      shouldPrefetch p = checkConnection conn \<and>
      (\<not> checkConnection conn \<longrightarrow> listeners p = [] \<and> scheduled p = [] \<and> observed p = []))"
  by (auto simp: checkConnection_def constructor_def init_def Let_def
      split: option.splits sum.splits prod.splits if_splits)

theorem connection_gate_witness:
  "checkConnection (Some \<lparr>saveData = False, effectiveType = ''2g''\<rparr>) = False \<and>
   checkConnection (Some \<lparr>saveData = True, effectiveType = ''4g''\<rparr>) = False \<and>
   checkConnection (Some \<lparr>saveData = False, effectiveType = ''4g''\<rparr>) = True \<and>
   map_sum id listeners (constructor [''tre'' \<mapsto> JBool True]
      (Some \<lparr>saveData = True, effectiveType = ''4g''\<rparr>) [Some ''a.html''] ArgUndefined) = Inr []"
proof -
  let ?p = "\<lparr>inst_options = \<lparr>hoverDelay = 20, opt_maxConcurrent = 3, aggressiveMode = True,
                instantNavigation = True\<rparr>,
             inst_queue = new_prefetcher 3, inst_hover = new_hover 20, shouldPrefetch = False,
             listeners = [], scheduled = [], observed = []\<rparr>"
  have c: "constructor [''tre'' \<mapsto> JBool True]
      (Some \<lparr>saveData = True, effectiveType = ''4g''\<rparr>) [Some ''a.html''] ArgUndefined = Inr ?p"
    by (simp add: constructor_def options_literal_def empty_options_def or_num_def or_bool_def
        spread_def strict_neq_def checkConnection_def init_def)
  from connection_gate [of "Some \<lparr>saveData = False, effectiveType = ''2g''\<rparr>"]
    connection_gate [of "Some \<lparr>saveData = False, effectiveType = ''4g''\<rparr>"]
    connection_gate [of "Some \<lparr>saveData = True, effectiveType = ''4g''\<rparr>"
      "[''tre'' \<mapsto> JBool True]" "[Some ''a.html'']" ArgUndefined ?p] c
  show ?thesis by simp
qed

text \<open>
  C10 (as amended). While nothing binds \<open>tre\<close> in the global scope, the constructor
  throws for every argument, before \<open>this.options\<close> or any other field is assigned: a
  \<open>ReferenceError\<close> for an options object and for no argument, a \<open>TypeError\<close> for
  \<open>null\<close>. The auto-initialisation at the end of the file passes an object literal and
  throws the \<open>ReferenceError\<close>, so \<open>window.prefetcher\<close> is never assigned.
\<close>

theorem constructor_throws:
  assumes "globals ''tre'' = None"
  shows "(arg \<noteq> ArgNull \<longrightarrow>
           constructor globals conn articles arg = Inl (ReferenceError ''tre is not defined'')) \<and>
         constructor globals conn articles ArgNull =
           Inl (TypeError ''Cannot read properties of null (reading hoverDelay)'') \<and>
         auto_init globals conn articles = Inl (ReferenceError ''tre is not defined'')"
  using assms
  by (cases arg) (simp_all add: auto_init_def constructor_def options_literal_def Let_def)

theorem constructor_throws_witness:
  "constructor Map.empty None [Some ''a.html''] ArgUndefined = Inl (ReferenceError ''tre is not defined'') \<and>
   constructor Map.empty None [Some ''a.html'']
     (ArgObject \<lparr>arg_hoverDelay = Some 65, arg_maxConcurrent = Some 3,
                 arg_aggressiveMode = Some False, arg_instantNavigation = Some True\<rparr>) =
     Inl (ReferenceError ''tre is not defined'') \<and>
   auto_init Map.empty None [Some ''a.html''] = Inl (ReferenceError ''tre is not defined'')"
proof -
  have t: "(Map.empty :: string \<rightharpoonup> jsval) ''tre'' = None" by simp
  from constructor_throws [OF t, of ArgUndefined None "[Some ''a.html'']"]
    constructor_throws [OF t, of "ArgObject \<lparr>arg_hoverDelay = Some 65, arg_maxConcurrent = Some 3,
                 arg_aggressiveMode = Some False, arg_instantNavigation = Some True\<rparr>" None "[Some ''a.html'']"]
  show ?thesis by simp
qed

text \<open>
  C10 as stated fails for the argument \<open>null\<close>: the default \<open>{}\<close> is not taken,
  and reading \<open>options.hoverDelay\<close> throws a \<open>TypeError\<close> before \<open>tre\<close> is
  evaluated.
\<close>

theorem constructor_null_counterexample:
  "constructor Map.empty None [] ArgNull =
     Inl (TypeError ''Cannot read properties of null (reading hoverDelay)'')"
  by (simp add: constructor_def options_literal_def)

text \<open>With \<open>tre\<close> bound, the auto-initialisation returns a prefetcher with its
  listeners registered.\<close>

lemma constructor_with_tre_bound:
  "auto_init [''tre'' \<mapsto> JBool True] None [Some ''a.html'', None, Some ''b.html''] =
     Inr \<lparr>inst_options = \<lparr>hoverDelay = 65, opt_maxConcurrent = 3, aggressiveMode = False,
                instantNavigation = True\<rparr>,
           inst_queue = new_prefetcher 3, inst_hover = new_hover 65, shouldPrefetch = True,
           listeners = [''mouseenter'', ''mouseleave'', ''click''], scheduled = [],
           observed = [Some ''a.html'', None, Some ''b.html'']\<rparr>"
  by (simp add: auto_init_def constructor_def options_literal_def or_num_def or_bool_def
      spread_def strict_neq_def checkConnection_def init_def)

section \<open>Claims about navigation on click\<close>




end
